theory Spec2Isabelle
  imports Main "HOL-Library.Char_ord" "HOL-Library.List_Lexorder" "HOL-Library.AList"
    "HOL-Library.Multiset"
begin

section \<open>Data model of jwzthreading\<close>

text \<open>
  Python exceptions the threading core can raise: \<open>list.remove\<close> of an absent element
  raises ValueError, \<open>children[0]\<close> on an empty list IndexError, \<open>None.subject\<close>
  AttributeError, and \<open>re.sub\<close> or \<open>len\<close> on \<open>None\<close> TypeError.
\<close>

datatype error = ValueError | IndexError | AttributeError | TypeError

text \<open>
  class Message. The class attributes default to \<open>None\<close> (\<open>references\<close> to the empty
  list), so \<open>message_id\<close> and \<open>subject\<close> are optional strings. The opaque payload
  \<open>message\<close> is never read by the threading functions and is left out.
\<close>

record Message =
  message_id :: "string option"
  references :: "string list"
  subject :: "string option"
  message_idx :: "nat option"

text \<open>
  class Container. Containers are mutable objects compared by identity; an object is
  its address \<open>cid\<close> in a store, and \<open>parent\<close> and \<open>children\<close> hold addresses.
\<close>

type_synonym cid = nat

record Container =
  message :: "Message option"
  parent :: "cid option"
  children :: "cid list"

type_synonym store = "Container list"

definition Container_init :: Container where
  "Container_init = \<lparr>message = None, parent = None, children = []\<rparr>"

text \<open>\<open>Container()\<close>: a fresh object, at the first unused address.\<close>

definition alloc :: "store \<Rightarrow> cid \<times> store" where
  "alloc s = (length s, s @ [Container_init])"

definition is_dummy :: "store \<Rightarrow> cid \<Rightarrow> bool" where
  "is_dummy s c = (message (s ! c) = None)"

section \<open>Container tree operations\<close>

text \<open>
  \<open>remove_child\<close>: \<open>self.children.remove(child)\<close> deletes the first occurrence and
  raises ValueError when there is none; then \<open>child.parent = None\<close>.
\<close>

definition remove_child :: "store \<Rightarrow> cid \<Rightarrow> cid \<Rightarrow> error + store" where
  "remove_child s self child =
     (if child \<in> set (children (s ! self)) then
        let s1 = s[self := (s ! self)\<lparr>children := remove1 child (children (s ! self))\<rparr>]
        in Inr (s1[child := (s1 ! child)\<lparr>parent := None\<rparr>])
      else Inl ValueError)"

text \<open>
  \<open>add_child\<close>: detach the child from its current parent, if it has one, append it to
  \<open>self.children\<close> and set its parent pointer.
\<close>

definition add_child :: "store \<Rightarrow> cid \<Rightarrow> cid \<Rightarrow> error + store" where
  "add_child s self child =
     (case (case parent (s ! child) of
              None \<Rightarrow> Inr s
            | Some p \<Rightarrow> remove_child s p child) of
        Inl e \<Rightarrow> Inl e
      | Inr s1 \<Rightarrow>
          let s2 = s1[self := (s1 ! self)\<lparr>children := children (s1 ! self) @ [child]\<rparr>]
          in Inr (s2[child := (s2 ! child)\<lparr>parent := Some self\<rparr>]))"

text \<open>
  \<open>has_descendant\<close>: the depth-first search of the source. The deque is a list whose
  head is the top of the stack; the children of the popped node that are not in
  \<open>seen\<close> are pushed in order, so the last of them is on top. An address outside
  the store denotes no object (no Python reference is dangling); the search stops
  there.
\<close>

function has_descendant_loop :: "store \<Rightarrow> cid \<Rightarrow> cid list \<Rightarrow> cid set \<Rightarrow> bool" where
  "has_descendant_loop s ctr [] seen = False"
| "has_descendant_loop s ctr (node # stack) seen =
     (if node = ctr then True
      else if length s \<le> node then False
      else has_descendant_loop s ctr
             (rev (filter (\<lambda>child. child \<notin> insert node seen) (children (s ! node))) @ stack)
             (insert node seen))"
  by pat_completeness auto

definition dfs_measure :: "store \<times> cid \<times> cid list \<times> cid set \<Rightarrow> nat \<times> nat \<times> nat" where
  "dfs_measure = (\<lambda>(s, ctr, stack, seen).
     (card ({..<length s} - seen),
      (case stack of [] \<Rightarrow> 0 | t # _ \<Rightarrow> if t \<in> seen then 1 else 0),
      length stack))"

lemma card_unseen_less:
  assumes "node < n" "node \<notin> seen"
  shows "card ({..<n} - insert node seen) < card ({..<n::nat} - seen)"
proof -
  have "{..<n} - insert node seen \<subset> {..<n} - seen"
    using assms by auto
  then show ?thesis
    by (simp add: psubset_card_mono)
qed

lemma dfs_push_top:
  "(case rev (filter (\<lambda>c. c \<notin> insert node seen) ks) @ stack of
      [] \<Rightarrow> 0 | t # _ \<Rightarrow> if t \<in> insert node seen then 1 else (0::nat)) \<le> 1"
  by (simp split: list.splits)

lemma dfs_push_nonempty_top:
  assumes "filter (\<lambda>c. c \<notin> S) ks \<noteq> []"
  shows "(case rev (filter (\<lambda>c. c \<notin> S) ks) @ stack of
      [] \<Rightarrow> 0 | t # _ \<Rightarrow> if t \<in> S then 1 else (0::nat)) = 0"
proof -
  obtain t ts where ts: "rev (filter (\<lambda>c. c \<notin> S) ks) = t # ts"
    using assms by (cases "rev (filter (\<lambda>c. c \<notin> S) ks)") auto
  then have "t \<in> set (filter (\<lambda>c. c \<notin> S) ks)"
    by (metis list.set_intros(1) set_rev)
  then have "t \<notin> S" by simp
  with ts show ?thesis by simp
qed

termination has_descendant_loop
proof (relation "inv_image (less_than <*lex*> less_than <*lex*> less_than) dfs_measure")
  show "wf (inv_image (less_than <*lex*> less_than <*lex*> less_than) dfs_measure)"
    by (intro wf_inv_image wf_lex_prod wf_less_than)
next
  fix s :: store and ctr node :: cid and stack :: "cid list" and seen :: "cid set"
  assume a: "node \<noteq> ctr" "\<not> length s \<le> node"
  let ?S = "insert node seen"
  let ?new = "rev (filter (\<lambda>child. child \<notin> ?S) (children (s ! node))) @ stack"
  show "((s, ctr, ?new, ?S), (s, ctr, node # stack, seen))
      \<in> inv_image (less_than <*lex*> less_than <*lex*> less_than) dfs_measure"
  proof (cases "node \<in> seen")
    case False
    with a have "card ({..<length s} - ?S) < card ({..<length s} - seen)"
      by (intro card_unseen_less) auto
    then show ?thesis by (simp add: dfs_measure_def)
  next
    case True
    then have same: "insert node seen = seen" by auto
    let ?f = "filter (\<lambda>child. child \<notin> seen) (children (s ! node))"
    have "((s, ctr, rev ?f @ stack, seen), (s, ctr, node # stack, seen))
      \<in> inv_image (less_than <*lex*> less_than <*lex*> less_than) dfs_measure"
    proof (cases "?f = []")
      case True
      with \<open>node \<in> seen\<close> show ?thesis
        by (auto simp: dfs_measure_def split: list.splits)
    next
      case False
      have "(case rev ?f @ stack of [] \<Rightarrow> 0 | t # _ \<Rightarrow> if t \<in> seen then 1 else (0::nat)) = 0"
        by (rule dfs_push_nonempty_top[OF False])
      with \<open>node \<in> seen\<close> show ?thesis
        by (simp add: dfs_measure_def)
    qed
    then show ?thesis
      unfolding same .
  qed
qed

definition has_descendant :: "store \<Rightarrow> cid \<Rightarrow> cid \<Rightarrow> bool" where
  "has_descendant s self ctr = has_descendant_loop s ctr [self] {}"

section \<open>Pruning\<close>

text \<open>
  The two loops of \<open>prune_container\<close> that do not recurse:
  \<open>for child in new_children: container.add_child(child)\<close> and
  \<open>for child in children: container.remove_child(child)\<close>.
\<close>

fun add_children :: "store \<Rightarrow> cid \<Rightarrow> cid list \<Rightarrow> error + store" where
  "add_children s self [] = Inr s"
| "add_children s self (child # rest) =
     (case add_child s self child of
        Inl e \<Rightarrow> Inl e
      | Inr s1 \<Rightarrow> add_children s1 self rest)"

fun remove_children :: "store \<Rightarrow> cid \<Rightarrow> cid list \<Rightarrow> error + store" where
  "remove_children s self [] = Inr s"
| "remove_children s self (child # rest) =
     (case remove_child s self child of
        Inl e \<Rightarrow> Inl e
      | Inr s1 \<Rightarrow> remove_children s1 self rest)"

text \<open>
  The decision at the end of \<open>prune_container\<close>, taken on the store in which the
  container already holds its pruned children.
\<close>

definition prune_decide :: "store \<Rightarrow> cid \<Rightarrow> error + cid list \<times> store" where
  "prune_decide s container =
     (if message (s ! container) = None \<and> length (children (s ! container)) = 0 then
        Inr ([], s)
      else if message (s ! container) = None \<and>
              (length (children (s ! container)) = 1 \<or> parent (s ! container) \<noteq> None) then
        (case remove_children s container (children (s ! container)) of
           Inl e \<Rightarrow> Inl e
         | Inr s1 \<Rightarrow> Inr (children (s ! container), s1))
      else Inr ([container], s))"

text \<open>
  \<open>prune_container\<close> recurses on the children with no bound of its own (on a cyclic
  structure it would not return), so the recursion depth is bounded by a fuel argument
  and \<open>None\<close> means that the fuel ran out. \<open>prune_children\<close> is the first loop, over
  the copy \<open>container.children[:]\<close>, collecting \<open>new_children\<close>.
\<close>

fun prune_container :: "nat \<Rightarrow> store \<Rightarrow> cid \<Rightarrow> (error + cid list \<times> store) option"
  and prune_children ::
    "nat \<Rightarrow> store \<Rightarrow> cid \<Rightarrow> cid list \<Rightarrow> cid list \<Rightarrow> (error + cid list \<times> store) option"
where
  "prune_container 0 s container = None"
| "prune_container (Suc n) s container =
     (case prune_children n s container (children (s ! container)) [] of
        None \<Rightarrow> None
      | Some (Inl e) \<Rightarrow> Some (Inl e)
      | Some (Inr (new_children, s1)) \<Rightarrow>
          (case add_children s1 container new_children of
             Inl e \<Rightarrow> Some (Inl e)
           | Inr s2 \<Rightarrow> Some (prune_decide s2 container)))"
| "prune_children n s container [] new_children = Some (Inr (new_children, s))"
| "prune_children n s container (ctr # rest) new_children =
     (case prune_container n s ctr of
        None \<Rightarrow> None
      | Some (Inl e) \<Rightarrow> Some (Inl e)
      | Some (Inr (pruned_child, s1)) \<Rightarrow>
          (case remove_child s1 container ctr of
             Inl e \<Rightarrow> Some (Inl e)
           | Inr s2 \<Rightarrow> prune_children n s2 container rest (new_children @ pruned_child)))"

section \<open>Sorting\<close>




section \<open>Subject normalisation\<close>

text \<open>
  \<open>SUBJECT_RE\<close> is compiled with \<open>re.I | re.VERBOSE\<close>, so the blanks of the
  pattern are not part of it: it is \<open>((Re(\[\d+\])?:)|(\[[^]]+\])\s*)+\<close>, one or more
  groups, each a reply marker \<open>Re:\<close> or \<open>Re[digits]:\<close> in any letter case, or a
  bracketed tag followed by white space. \<open>\d\<close> and \<open>\s\<close> are the ASCII classes.
  Each matcher returns the rest of the string after a match at its start.
\<close>

definition is_digit :: "char \<Rightarrow> bool" where
  "is_digit c = (c \<in> set ''0123456789'')"

definition is_space :: "char \<Rightarrow> bool" where
  "is_space c = (c \<in> set [CHR '' '', CHR 0x09, CHR 0x0A, CHR 0x0B, CHR 0x0C, CHR 0x0D])"

fun match_reply :: "string \<Rightarrow> string option" where
  "match_reply (r # e # c # rest) =
     (if (r = CHR ''R'' \<or> r = CHR ''r'') \<and> (e = CHR ''E'' \<or> e = CHR ''e'') then
        if c = CHR '':'' then Some rest
        else if c = CHR ''['' then
          (if takeWhile is_digit rest \<noteq> [] \<and> take 2 (dropWhile is_digit rest) = '']:''
           then Some (drop 2 (dropWhile is_digit rest)) else None)
        else None
      else None)"
| "match_reply _ = None"

fun match_tag :: "string \<Rightarrow> string option" where
  "match_tag (c # rest) =
     (if c = CHR ''['' \<and> takeWhile (\<lambda>x. x \<noteq> CHR '']'') rest \<noteq> [] \<and>
         dropWhile (\<lambda>x. x \<noteq> CHR '']'') rest \<noteq> []
      then Some (dropWhile is_space (tl (dropWhile (\<lambda>x. x \<noteq> CHR '']'') rest)))
      else None)"
| "match_tag [] = None"

definition match_group :: "string \<Rightarrow> string option" where
  "match_group str = (case match_reply str of Some rest \<Rightarrow> Some rest | None \<Rightarrow> match_tag str)"

lemma match_reply_shorter: "match_reply str = Some rest \<Longrightarrow> length rest < length str"
proof (induction str rule: match_reply.induct)
  case (1 r e c rest')
  have "length (dropWhile is_digit rest') \<le> length rest'"
    by (rule length_dropWhile_le)
  with 1 show ?case
    by (auto split: if_splits)
qed simp_all

lemma match_tag_shorter: "match_tag str = Some rest \<Longrightarrow> length rest < length str"
proof (cases str)
  case Nil
  then show "match_tag str = Some rest \<Longrightarrow> length rest < length str" by simp
next
  case (Cons c cs)
  let ?after = "dropWhile (\<lambda>x. x \<noteq> CHR '']'') cs"
  assume m: "match_tag str = Some rest"
  with Cons have rest: "rest = dropWhile is_space (tl ?after)"
    by (auto split: if_splits)
  have "length (dropWhile is_space (tl ?after)) \<le> length (tl ?after)"
    by (rule length_dropWhile_le)
  also have "\<dots> \<le> length ?after" by simp
  also have "\<dots> \<le> length cs" by (rule length_dropWhile_le)
  finally show "length rest < length str"
    using Cons rest by simp
qed

lemma match_group_shorter: "match_group str = Some rest \<Longrightarrow> length rest < length str"
  by (auto simp: match_group_def split: option.splits
      dest: match_reply_shorter match_tag_shorter)

text \<open>The repetition \<open>(...)+\<close>, greedy: as many groups as match in a row.\<close>

function match_subject_re :: "string \<Rightarrow> string option" where
  "match_subject_re str =
     (case match_group str of
        None \<Rightarrow> None
      | Some rest \<Rightarrow>
          (case match_subject_re rest of None \<Rightarrow> Some rest | Some rest' \<Rightarrow> Some rest'))"
  by pat_completeness auto
termination
  by (relation "measure length") (auto dest: match_group_shorter)

declare match_subject_re.simps [simp del]

lemma match_subject_re_shorter:
  "match_subject_re str = Some rest \<Longrightarrow> length rest < length str"
proof (induction str arbitrary: rest rule: match_subject_re.induct)
  case (1 str)
  from "1.prems" obtain r where r: "match_group str = Some r"
    by (subst (asm) match_subject_re.simps) (auto split: option.splits)
  then have lr: "length r < length str"
    by (rule match_group_shorter)
  show ?case
  proof (cases "match_subject_re r")
    case None
    with "1.prems" r have "rest = r"
      by (subst (asm) match_subject_re.simps) simp
    with lr show ?thesis by simp
  next
    case (Some r')
    with "1.prems" r have "rest = r'"
      by (subst (asm) match_subject_re.simps) simp
    with "1.IH"[OF r Some] lr show ?thesis by simp
  qed
qed

text \<open>
  \<open>SUBJECT_RE.sub('', subj)\<close>: scanning from the left, every match is deleted and the
  scan goes on after it; a character at which nothing matches is kept. The
  substitution is not anchored at the start of the subject.
\<close>

function subject_re_sub :: "string \<Rightarrow> string" where
  "subject_re_sub [] = []"
| "subject_re_sub (c # cs) =
     (case match_subject_re (c # cs) of
        Some rest \<Rightarrow> subject_re_sub rest
      | None \<Rightarrow> c # subject_re_sub cs)"
  by pat_completeness auto
termination
  by (relation "measure length") (auto dest: match_subject_re_shorter)

section \<open>Threading\<close>

subsection \<open>Step one: the id table and the links\<close>

text \<open>
  \<open>id_table\<close> is an OrderedDict from message ids to containers: an association list
  in insertion order. \<^const>\<open>AList.update\<close> replaces the value of a key in place
  and appends a new key at the end, as assignment to an OrderedDict does.
\<close>

type_synonym id_table = "(string option \<times> cid) list"

text \<open>
  Step one (a): the container of the message's own id is looked up or created, and
  the message is stored in it.
\<close>

definition attach_message :: "id_table \<Rightarrow> store \<Rightarrow> Message \<Rightarrow> cid \<times> id_table \<times> store" where
  "attach_message id_table s msg =
     (case map_of id_table (message_id msg) of
        Some this_container \<Rightarrow>
          (this_container, id_table,
           s[this_container := (s ! this_container)\<lparr>message := Some msg\<rparr>])
      | None \<Rightarrow>
          (let (this_container, s1) = alloc s
           in (this_container,
               AList.update (message_id msg) this_container id_table,
               s1[this_container := (s1 ! this_container)\<lparr>message := Some msg\<rparr>])))"

text \<open>
  Step one (b): the loop over \<open>msg.references\<close>, with \<open>prev\<close> the container of the
  reference before. The link from \<open>prev\<close> is added only when the container has no
  parent yet and the link closes no loop.
\<close>

definition lookup_or_create :: "id_table \<Rightarrow> store \<Rightarrow> string \<Rightarrow> cid \<times> id_table \<times> store" where
  "lookup_or_create id_table s ref =
     (case map_of id_table (Some ref) of
        Some container \<Rightarrow> (container, id_table, s)
      | None \<Rightarrow>
          (let (container, s1) = alloc s
           in (container, AList.update (Some ref) container id_table, s1)))"

definition link_reference :: "store \<Rightarrow> cid \<Rightarrow> cid option \<Rightarrow> cid \<Rightarrow> error + store" where
  "link_reference s this_container prev container =
     (case prev of
        None \<Rightarrow> Inr s
      | Some p \<Rightarrow>
          if parent (s ! container) \<noteq> None then Inr s
          else if container = this_container \<or> has_descendant s container p \<or>
                  has_descendant s p container then Inr s
          else add_child s p container)"

fun link_references ::
  "id_table \<Rightarrow> store \<Rightarrow> cid \<Rightarrow> cid option \<Rightarrow> string list \<Rightarrow>
     error + id_table \<times> store \<times> cid option" where
  "link_references id_table s this_container prev [] = Inr (id_table, s, prev)"
| "link_references id_table s this_container prev (ref # refs) =
     (case lookup_or_create id_table s ref of
        (container, id_table1, s1) \<Rightarrow>
          (case link_reference s1 this_container prev container of
             Inl e \<Rightarrow> Inl e
           | Inr s2 \<Rightarrow> link_references id_table1 s2 this_container (Some container) refs))"

text \<open>
  Step one (c): the message's container becomes the last child of the last reference;
  a message with no references is detached from the parent it may have.
\<close>

definition set_parent :: "store \<Rightarrow> cid \<Rightarrow> cid option \<Rightarrow> error + store" where
  "set_parent s this_container prev =
     (case prev of
        Some p \<Rightarrow> add_child s p this_container
      | None \<Rightarrow>
          (case parent (s ! this_container) of
             Some q \<Rightarrow> remove_child s q this_container
           | None \<Rightarrow> Inr s))"

definition link_message :: "id_table \<Rightarrow> store \<Rightarrow> Message \<Rightarrow> error + id_table \<times> store" where
  "link_message id_table s msg =
     (case attach_message id_table s msg of
        (this_container, id_table1, s1) \<Rightarrow>
          (case link_references id_table1 s1 this_container None (references msg) of
             Inl e \<Rightarrow> Inl e
           | Inr (id_table2, s2, prev) \<Rightarrow>
               (case set_parent s2 this_container prev of
                  Inl e \<Rightarrow> Inl e
                | Inr s3 \<Rightarrow> Inr (id_table2, s3))))"

fun link_messages :: "id_table \<Rightarrow> store \<Rightarrow> Message list \<Rightarrow> error + id_table \<times> store" where
  "link_messages id_table s [] = Inr (id_table, s)"
| "link_messages id_table s (msg # msgs) =
     (case link_message id_table s msg of
        Inl e \<Rightarrow> Inl e
      | Inr (id_table1, s1) \<Rightarrow> link_messages id_table1 s1 msgs)"

subsection \<open>Steps two and four: the root set and its pruning\<close>

definition find_root_set :: "id_table \<Rightarrow> store \<Rightarrow> cid list" where
  "find_root_set id_table s = filter (\<lambda>container. parent (s ! container) = None) (map snd id_table)"

fun prune_root_set :: "nat \<Rightarrow> store \<Rightarrow> cid list \<Rightarrow> (error + cid list \<times> store) option" where
  "prune_root_set n s [] = Some (Inr ([], s))"
| "prune_root_set n s (container # rest) =
     (case prune_container n s container of
        None \<Rightarrow> None
      | Some (Inl e) \<Rightarrow> Some (Inl e)
      | Some (Inr (new_container, s1)) \<Rightarrow>
          (case prune_root_set n s1 rest of
             None \<Rightarrow> None
           | Some (Inl e) \<Rightarrow> Some (Inl e)
           | Some (Inr (new_root_set, s2)) \<Rightarrow> Some (Inr (new_container @ new_root_set, s2))))"

subsection \<open>Step five: grouping the root set by subject\<close>

type_synonym subject_table = "(string \<times> cid) list"

text \<open>
  The subject of a root: its own message's, or its first child's message's when it is
  a dummy, with every match of \<open>SUBJECT_RE\<close> deleted.
\<close>

definition normalise :: "string option \<Rightarrow> error + string" where
  "normalise subj = (case subj of None \<Rightarrow> Inl TypeError | Some str \<Rightarrow> Inr (subject_re_sub str))"

definition root_subject :: "store \<Rightarrow> cid \<Rightarrow> error + string" where
  "root_subject s container =
     (case message (s ! container) of
        Some m \<Rightarrow> normalise (subject m)
      | None \<Rightarrow>
          (case children (s ! container) of
             [] \<Rightarrow> Inl IndexError
           | child # _ \<Rightarrow>
               (case message (s ! child) of
                  None \<Rightarrow> Inl AttributeError
                | Some m \<Rightarrow> normalise (subject m))))"

definition len_subject :: "Message \<Rightarrow> error + nat" where
  "len_subject m = (case subject m of None \<Rightarrow> Inl TypeError | Some str \<Rightarrow> Inr (length str))"

text \<open>
  The test that decides whether \<open>container\<close> replaces \<open>existing\<close> in the subject
  table, with Python's short-circuit evaluation.
\<close>

definition replaces :: "store \<Rightarrow> cid \<Rightarrow> cid \<Rightarrow> error + bool" where
  "replaces s existing container =
     (case message (s ! existing) of
        None \<Rightarrow> Inr False
      | Some em \<Rightarrow>
          (case message (s ! container) of
             None \<Rightarrow> Inr True
           | Some cm \<Rightarrow>
               (case len_subject em of
                  Inl e \<Rightarrow> Inl e
                | Inr le \<Rightarrow>
                    (case len_subject cm of
                       Inl e \<Rightarrow> Inl e
                     | Inr lc \<Rightarrow> Inr (le > lc)))))"

fun build_subject_table :: "store \<Rightarrow> subject_table \<Rightarrow> cid list \<Rightarrow> error + subject_table" where
  "build_subject_table s subject_table [] = Inr subject_table"
| "build_subject_table s subject_table (container # rest) =
     (case root_subject s container of
        Inl e \<Rightarrow> Inl e
      | Inr subj \<Rightarrow>
          if subj = [] then build_subject_table s subject_table rest
          else
            (case map_of subject_table subj of
               None \<Rightarrow> build_subject_table s (AList.update subj container subject_table) rest
             | Some existing \<Rightarrow>
                 (case replaces s existing container of
                    Inl e \<Rightarrow> Inl e
                  | Inr True \<Rightarrow>
                      build_subject_table s (AList.update subj container subject_table) rest
                  | Inr False \<Rightarrow> build_subject_table s subject_table rest)))"

text \<open>
  \<open>for child in ctr.children: container.add_child(child)\<close> iterates over the very list
  that \<open>add_child\<close> shrinks: Python's list iterator keeps an index \<open>i\<close> and stops
  when it reaches the current length. The fuel bounds the number of iterations.
\<close>

fun splice_children :: "nat \<Rightarrow> store \<Rightarrow> cid \<Rightarrow> cid \<Rightarrow> nat \<Rightarrow> (error + store) option" where
  "splice_children 0 s ctr container i = None"
| "splice_children (Suc n) s ctr container i =
     (if i < length (children (s ! ctr)) then
        (case add_child s container (children (s ! ctr) ! i) of
           Inl e \<Rightarrow> Some (Inl e)
         | Inr s1 \<Rightarrow> splice_children n s1 ctr container (Suc i))
      else Some (Inr s))"

text \<open>
  Step five (c) for one root \<open>container\<close> whose subject has the representative
  \<open>ctr\<close>, another container.
\<close>

definition merge_pair ::
  "nat \<Rightarrow> store \<Rightarrow> subject_table \<Rightarrow> string \<Rightarrow> cid \<Rightarrow> cid \<Rightarrow>
     (error + subject_table \<times> store) option" where
  "merge_pair n s subject_table subj ctr container =
     (if is_dummy s ctr \<and> is_dummy s container then
        (case splice_children n s ctr container 0 of
           None \<Rightarrow> None
         | Some (Inl e) \<Rightarrow> Some (Inl e)
         | Some (Inr s1) \<Rightarrow> Some (Inr (subject_table, s1)))
      else if is_dummy s ctr \<or> is_dummy s container then
        (case (if is_dummy s ctr then add_child s ctr container
               else add_child s container ctr) of
           Inl e \<Rightarrow> Some (Inl e)
         | Inr s1 \<Rightarrow> Some (Inr (subject_table, s1)))
      else
        (case len_subject (the (message (s ! ctr))) of
           Inl e \<Rightarrow> Some (Inl e)
         | Inr lctr \<Rightarrow>
             (case len_subject (the (message (s ! container))) of
                Inl e \<Rightarrow> Some (Inl e)
              | Inr lcontainer \<Rightarrow>
                  if lctr < lcontainer then
                    (case add_child s ctr container of
                       Inl e \<Rightarrow> Some (Inl e)
                     | Inr s1 \<Rightarrow> Some (Inr (subject_table, s1)))
                  else if lctr > lcontainer then
                    (case add_child s container ctr of
                       Inl e \<Rightarrow> Some (Inl e)
                     | Inr s1 \<Rightarrow> Some (Inr (subject_table, s1)))
                  else
                    (case alloc s of
                       (new, s1) \<Rightarrow>
                         (case add_child s1 new ctr of
                            Inl e \<Rightarrow> Some (Inl e)
                          | Inr s2 \<Rightarrow>
                              (case add_child s2 new container of
                                 Inl e \<Rightarrow> Some (Inl e)
                               | Inr s3 \<Rightarrow>
                                   Some (Inr (AList.update subj new subject_table, s3))))))))"

fun merge_root_set ::
  "nat \<Rightarrow> store \<Rightarrow> subject_table \<Rightarrow> cid list \<Rightarrow> (error + subject_table \<times> store) option" where
  "merge_root_set n s subject_table [] = Some (Inr (subject_table, s))"
| "merge_root_set n s subject_table (container # rest) =
     (case root_subject s container of
        Inl e \<Rightarrow> Some (Inl e)
      | Inr subj \<Rightarrow>
          (case map_of subject_table subj of
             None \<Rightarrow> merge_root_set n s subject_table rest
           | Some ctr \<Rightarrow>
               if ctr = container then merge_root_set n s subject_table rest
               else
                 (case merge_pair n s subject_table subj ctr container of
                    None \<Rightarrow> None
                  | Some (Inl e) \<Rightarrow> Some (Inl e)
                  | Some (Inr (subject_table1, s1)) \<Rightarrow>
                      merge_root_set n s1 subject_table1 rest)))"

definition group_root_set :: "nat \<Rightarrow> store \<Rightarrow> cid list \<Rightarrow> (error + cid list \<times> store) option" where
  "group_root_set n s root_set =
     (case build_subject_table s [] root_set of
        Inl e \<Rightarrow> Some (Inl e)
      | Inr subject_table \<Rightarrow>
          (case merge_root_set n s subject_table root_set of
             None \<Rightarrow> None
           | Some (Inl e) \<Rightarrow> Some (Inl e)
           | Some (Inr (subject_table1, s1)) \<Rightarrow> Some (Inr (map snd subject_table1, s1))))"

subsection \<open>The whole function\<close>

text \<open>
  \<open>thread\<close> returns the list of root containers together with the store they live
  in. It starts from the empty store; \<open>None\<close> means that the fuel did not suffice.
\<close>

definition thread :: "nat \<Rightarrow> Message list \<Rightarrow> bool \<Rightarrow> (error + cid list \<times> store) option" where
  "thread n messages group_by_subject =
     (case link_messages [] [] messages of
        Inl e \<Rightarrow> Some (Inl e)
      | Inr (id_table, s) \<Rightarrow>
          (case prune_root_set n s (find_root_set id_table s) of
             None \<Rightarrow> None
           | Some (Inl e) \<Rightarrow> Some (Inl e)
           | Some (Inr (root_set, s1)) \<Rightarrow>
               if \<not> group_by_subject then Some (Inr (root_set, s1))
               else group_root_set n s1 root_set))"

section \<open>Test data\<close>

text \<open>A message as the tests build it: an id, a reference list and a subject.\<close>

definition mk_message :: "string \<Rightarrow> string list \<Rightarrow> string \<Rightarrow> Message" where
  "mk_message i refs subj =
     \<lparr>message_id = Some i, references = refs, subject = Some subj, message_idx = None\<rparr>"

section \<open>Attaching a message to an existing container\<close>

text \<open>
  C9. When the id of the message already has a container in the id table, step one (a)
  returns that container and the same table, and the store differs from the old one
  only in the message field of that container: every parent pointer and every
  children list is as before, and the container now holds the later message.
\<close>

theorem attach_message_existing:
  assumes "map_of id_table (message_id msg) = Some c"
    and "attach_message id_table s msg = (c', id_table', s')"
  shows "c' = c \<and> id_table' = id_table \<and> length s' = length s \<and>
         (\<forall>x. parent (s' ! x) = parent (s ! x) \<and> children (s' ! x) = children (s ! x)) \<and>
         (\<forall>x. x \<noteq> c \<longrightarrow> s' ! x = s ! x) \<and>
         (c < length s \<longrightarrow> message (s' ! c) = Some msg)"
proof (cases "c < length s")
  case True
  with assms show ?thesis
    by (auto simp: attach_message_def nth_list_update)
next
  case False
  then have "s[c := (s ! c)\<lparr>message := Some msg\<rparr>] = s"
    by (simp add: list_update_beyond)
  with assms False show ?thesis
    by (auto simp: attach_message_def)
qed

theorem attach_message_existing_witness:
  "map_of [(Some ''a'', 0), (Some ''b'', 1)] (message_id (mk_message ''a'' [] ''late'')) = Some 0 \<and>
   attach_message [(Some ''a'', 0), (Some ''b'', 1)]
     [\<lparr>message = Some (mk_message ''a'' [] ''early''), parent = Some 1, children = []\<rparr>,
      \<lparr>message = None, parent = None, children = [0]\<rparr>]
     (mk_message ''a'' [] ''late'') =
   (0, [(Some ''a'', 0), (Some ''b'', 1)],
     [\<lparr>message = Some (mk_message ''a'' [] ''late''), parent = Some 1, children = []\<rparr>,
      \<lparr>message = None, parent = None, children = [0]\<rparr>])"
  using attach_message_existing
    [of "[(Some ''a'', 0), (Some ''b'', 1)]" "mk_message ''a'' [] ''late''" 0
        "[\<lparr>message = Some (mk_message ''a'' [] ''early''), parent = Some 1, children = []\<rparr>,
          \<lparr>message = None, parent = None, children = [0]\<rparr>]"]
  by (simp add: attach_message_def mk_message_def)

section \<open>Sorting threads\<close>





section \<open>The decision of the pruner\<close>





section \<open>Messages that reference each other\<close>

text \<open>
  C3. No message loss does not hold. Message A lists B as its reference and message B
  lists A; the ids are distinct. Step one (c) makes A's container a child of B's while
  threading A, and B's container a child of A's while threading B, with no loop check.
  Both containers then have a parent, the root set is empty, and \<open>thread\<close> returns
  no container at all, whatever the fuel and the value of \<open>group_by_subject\<close>.
\<close>

definition mutual_store :: store where
  "mutual_store =
     [\<lparr>message = Some (mk_message ''A'' [''B''] ''x''), parent = Some 1, children = [1]\<rparr>,
      \<lparr>message = Some (mk_message ''B'' [''A''] ''y''), parent = Some 0, children = [0]\<rparr>]"

lemma link_mutual:
  "link_messages [] [] [mk_message ''A'' [''B''] ''x'', mk_message ''B'' [''A''] ''y''] =
     Inr ([(Some ''A'', 0), (Some ''B'', 1)], mutual_store)"
  by code_simp

lemma roots_mutual: "find_root_set [(Some ''A'', 0), (Some ''B'', 1)] mutual_store = []"
  by code_simp

theorem thread_mutual_references_lost:
  "\<forall>n group_by_subject.
     thread n [mk_message ''A'' [''B''] ''x'', mk_message ''B'' [''A''] ''y''] group_by_subject =
       Some (Inr ([], mutual_store))"
  by (simp only: thread_def link_mutual roots_mutual prune_root_set.simps group_root_set_def
      build_subject_table.simps merge_root_set.simps
      sum.case prod.case option.case simp_thms if_False if_True list.map snd_conv if_cancel)

section \<open>Roots with an empty normalised subject\<close>

definition empty_subject_store :: store where
  "empty_subject_store =
     [\<lparr>message = Some (mk_message ''A'' [] ''Re:''), parent = None, children = []\<rparr>,
      \<lparr>message = Some (mk_message ''B'' [] ''y''), parent = None, children = []\<rparr>]"

lemma link_empty_subject:
  "link_messages [] [] [mk_message ''A'' [] ''Re:'', mk_message ''B'' [] ''y''] =
     Inr ([(Some ''A'', 0), (Some ''B'', 1)], empty_subject_store)"
  by code_simp

lemma roots_empty_subject:
  "find_root_set [(Some ''A'', 0), (Some ''B'', 1)] empty_subject_store = [0, 1]"
  by code_simp

lemma subjects_empty_subject:
  "root_subject empty_subject_store 0 = Inr []"
  "root_subject empty_subject_store 1 = Inr ''y''"
  by code_simp+

lemma table_empty_subject:
  "build_subject_table empty_subject_store [] [0, 1] = Inr [(''y'', 1)]"
  by code_simp

lemma prune_empty_subject:
  "prune_root_set (Suc n) empty_subject_store [0, 1] = Some (Inr ([0, 1], empty_subject_store))"
  by (simp add: prune_decide_def empty_subject_store_def mk_message_def)

lemma merge_empty_subject:
  "merge_root_set n empty_subject_store [(''y'', 1)] [0, 1] =
     Some (Inr ([(''y'', 1)], empty_subject_store))"
  by (simp add: subjects_empty_subject del: One_nat_def)

lemma thread_empty_subject:
  "thread (Suc n) [mk_message ''A'' [] ''Re:'', mk_message ''B'' [] ''y''] True =
     Some (Inr ([1], empty_subject_store))"
  by (simp only: thread_def link_empty_subject roots_empty_subject prune_empty_subject
      group_root_set_def table_empty_subject merge_empty_subject
      sum.case prod.case option.case simp_thms if_False if_True list.map snd_conv)

text \<open>
  C5 as stated fails. Two unrelated messages, the first with the subject \<open>Re:\<close>:
  both containers are roots after pruning, the normalised subject of container 0 is
  empty, and the list \<open>thread\<close> returns with \<open>group_by_subject\<close> holds container 1
  only.
\<close>

theorem empty_subject_root_dropped:
  "link_messages [] [] [mk_message ''A'' [] ''Re:'', mk_message ''B'' [] ''y''] =
     Inr ([(Some ''A'', 0), (Some ''B'', 1)], empty_subject_store) \<and>
   (\<forall>n. prune_root_set (Suc n) empty_subject_store
          (find_root_set [(Some ''A'', 0), (Some ''B'', 1)] empty_subject_store) =
        Some (Inr ([0, 1], empty_subject_store))) \<and>
   root_subject empty_subject_store 0 = Inr [] \<and>
   (\<forall>n. thread (Suc n) [mk_message ''A'' [] ''Re:'', mk_message ''B'' [] ''y''] True =
        Some (Inr ([1], empty_subject_store))) \<and>
   0 \<notin> set [1::nat]"
  by (simp only: link_empty_subject roots_empty_subject prune_empty_subject
      subjects_empty_subject thread_empty_subject simp_thms) simp

section \<open>The representative of a subject\<close>

text \<open>
  A pruned root set: the dummy root 1 with the two replies 0 and 2, and the root 3
  with a message of the same subject.
\<close>

definition subject_example_store :: store where
  "subject_example_store =
     [\<lparr>message = Some (mk_message ''First'' [''parent''] ''Child''), parent = Some 1, children = []\<rparr>,
      \<lparr>message = None, parent = None, children = [0, 2]\<rparr>,
      \<lparr>message = Some (mk_message ''Second'' [''parent''] ''Child''), parent = Some 1, children = []\<rparr>,
      \<lparr>message = Some (mk_message ''Third'' [] ''Child''), parent = None, children = []\<rparr>]"

text \<open>
  C4 as stated fails. Scanning the roots 1, 3: the representative 1 lacks a message and
  the candidate 3 has one, yet 1 stays. Scanning 3, 1: the representative 3 has a
  message and the candidate 1 has none, neither condition of the claim holds, yet 1
  replaces 3.
\<close>

theorem subject_table_prefers_dummy:
  "message (subject_example_store ! 1) = None \<and>
   message (subject_example_store ! 3) = Some (mk_message ''Third'' [] ''Child'') \<and>
   build_subject_table subject_example_store [] [1, 3] = Inr [(''Child'', 1)] \<and>
   build_subject_table subject_example_store [] [3] = Inr [(''Child'', 3)] \<and>
   build_subject_table subject_example_store [] [3, 1] = Inr [(''Child'', 1)]"
  by code_simp

text \<open>
  C4, amended. While the subject table is built, a container whose normalised subject
  is not empty and already has a representative replaces that representative exactly
  when the representative has a message and the candidate has none (a dummy is
  preferred), or both have messages and the candidate's raw subject is strictly
  shorter. Otherwise the table is left as it is.
\<close>

lemma root_subject_message:
  assumes "root_subject s c = Inr subj" "message (s ! c) = Some m"
  shows "\<exists>str. subject m = Some str"
  using assms by (auto simp: root_subject_def normalise_def split: option.splits)

theorem subject_table_replacement:
  assumes "root_subject s container = Inr subj" and "subj \<noteq> []"
    and "map_of subject_table subj = Some existing"
    and "root_subject s existing = Inr subj"
  shows "build_subject_table s subject_table (container # rest) =
         build_subject_table s
           (if (message (s ! existing) \<noteq> None \<and> message (s ! container) = None) \<or>
               (\<exists>em cm se sc. message (s ! existing) = Some em \<and>
                  message (s ! container) = Some cm \<and>
                  subject em = Some se \<and> subject cm = Some sc \<and> length sc < length se)
            then AList.update subj container subject_table
            else subject_table) rest \<and>
         map_of (AList.update subj container subject_table) subj = Some container"
proof -
  have upd: "map_of (AList.update subj container subject_table) subj = Some container"
    by (simp add: update_conv')
  show ?thesis
  proof (cases "message (s ! existing)")
    case None
    then have "replaces s existing container = Inr False"
      by (simp add: replaces_def)
    with assms None upd show ?thesis
      by simp
  next
    case (Some em)
    from root_subject_message[OF assms(4) Some] obtain se where se: "subject em = Some se"
      by blast
    show ?thesis
    proof (cases "message (s ! container)")
      case None
      with Some have "replaces s existing container = Inr True"
        by (simp add: replaces_def)
      with assms Some None upd show ?thesis
        by simp
    next
      case cm: (Some cm)
      from root_subject_message[OF assms(1) cm] obtain sc where sc: "subject cm = Some sc"
        by blast
      from Some cm se sc have "replaces s existing container = Inr (length sc < length se)"
        by (simp add: replaces_def len_subject_def)
      with assms Some cm se sc upd show ?thesis
        by (cases "length sc < length se") simp_all
    qed
  qed
qed

lemma subject_example_subjects:
  "root_subject subject_example_store 1 = Inr ''Child''"
  "root_subject subject_example_store 3 = Inr ''Child''"
  by code_simp+

theorem subject_table_replacement_witness:
  "build_subject_table subject_example_store [(''Child'', 3)] [1] =
     build_subject_table subject_example_store (AList.update ''Child'' 1 [(''Child'', 3)]) [] \<and>
   build_subject_table subject_example_store [(''Child'', 3)] [1] = Inr [(''Child'', 1)]"
proof -
  have m: "message (subject_example_store ! 3) \<noteq> None \<and> message (subject_example_store ! 1) = None"
    by code_simp
  have "build_subject_table subject_example_store [(''Child'', 3)] [1] =
     build_subject_table subject_example_store (AList.update ''Child'' 1 [(''Child'', 3)]) []"
    using subject_table_replacement
      [of subject_example_store 1 "''Child''" "[(''Child'', 3)]" 3 "[]"]
      subject_example_subjects m
    by simp
  moreover have "build_subject_table subject_example_store [(''Child'', 3)] [1] = Inr [(''Child'', 1)]"
    by code_simp
  ultimately show ?thesis
    by blast
qed

section \<open>Effects of the tree operations on the store\<close>

text \<open>
  What \<open>remove_child\<close> and \<open>add_child\<close> change, field by field, when they succeed.
\<close>

lemma remove_child_effect:
  assumes "child \<in> set (children (s ! self))" "self < length s" "child < length s"
  shows "\<exists>s'. remove_child s self child = Inr s' \<and> length s' = length s \<and>
     (\<forall>x. message (s' ! x) = message (s ! x)) \<and>
     (\<forall>x. children (s' ! x) =
        (if x = self then remove1 child (children (s ! self)) else children (s ! x))) \<and>
     (\<forall>x. parent (s' ! x) = (if x = child then None else parent (s ! x)))"
  using assms by (auto simp: remove_child_def Let_def nth_list_update)

lemma add_child_effect:
  assumes "parent (s ! child) = None" "self < length s" "child < length s"
  shows "\<exists>s'. add_child s self child = Inr s' \<and> length s' = length s \<and>
     (\<forall>x. message (s' ! x) = message (s ! x)) \<and>
     (\<forall>x. children (s' ! x) =
        (if x = self then children (s ! self) @ [child] else children (s ! x))) \<and>
     (\<forall>x. parent (s' ! x) = (if x = child then Some self else parent (s ! x)))"
  using assms by (auto simp: add_child_def Let_def nth_list_update)


lemma add_children_effect:
  assumes "distinct ks" "\<forall>k \<in> set ks. k < length s \<and> parent (s ! k) = None" "self < length s"
  shows "\<exists>s'. add_children s self ks = Inr s' \<and> length s' = length s \<and>
     (\<forall>x. message (s' ! x) = message (s ! x)) \<and>
     (\<forall>x. children (s' ! x) =
        (if x = self then children (s ! self) @ ks else children (s ! x))) \<and>
     (\<forall>x. parent (s' ! x) = (if x \<in> set ks then Some self else parent (s ! x)))"
  using assms
proof (induction ks arbitrary: s)
  case Nil
  then show ?case by simp
next
  case (Cons k ks)
  from Cons.prems have "parent (s ! k) = None" "k < length s" by auto
  from add_child_effect[OF this(1) Cons.prems(3) this(2)]
  obtain s1 where s1: "add_child s self k = Inr s1" "length s1 = length s"
    "\<forall>x. message (s1 ! x) = message (s ! x)"
    "\<forall>x. children (s1 ! x) = (if x = self then children (s ! self) @ [k] else children (s ! x))"
    "\<forall>x. parent (s1 ! x) = (if x = k then Some self else parent (s ! x))"
    by blast
  have "distinct ks" "\<forall>k' \<in> set ks. k' < length s1 \<and> parent (s1 ! k') = None" "self < length s1"
    using Cons.prems s1 by auto
  from Cons.IH[OF this]
  obtain s' where s': "add_children s1 self ks = Inr s'" "length s' = length s1"
    "\<forall>x. message (s' ! x) = message (s1 ! x)"
    "\<forall>x. children (s' ! x) = (if x = self then children (s1 ! self) @ ks else children (s1 ! x))"
    "\<forall>x. parent (s' ! x) = (if x \<in> set ks then Some self else parent (s1 ! x))"
    by blast
  show ?case
    using s1 s' by auto
qed

lemma remove_children_effect:
  assumes "children (s ! self) = ks @ rest" "\<forall>k \<in> set ks. k < length s" "self < length s"
  shows "\<exists>s'. remove_children s self ks = Inr s' \<and> length s' = length s \<and>
     (\<forall>x. message (s' ! x) = message (s ! x)) \<and>
     (\<forall>x. children (s' ! x) = (if x = self then rest else children (s ! x))) \<and>
     (\<forall>x. parent (s' ! x) = (if x \<in> set ks then None else parent (s ! x)))"
  using assms
proof (induction ks arbitrary: s)
  case Nil
  then show ?case by simp
next
  case (Cons k ks)
  have "k \<in> set (children (s ! self))" "k < length s"
    using Cons.prems by auto
  from remove_child_effect[OF this(1) Cons.prems(3) this(2)]
  obtain s1 where s1: "remove_child s self k = Inr s1" "length s1 = length s"
    "\<forall>x. message (s1 ! x) = message (s ! x)"
    "\<forall>x. children (s1 ! x) = (if x = self then remove1 k (children (s ! self)) else children (s ! x))"
    "\<forall>x. parent (s1 ! x) = (if x = k then None else parent (s ! x))"
    by blast
  have "children (s1 ! self) = ks @ rest" "\<forall>k' \<in> set ks. k' < length s1" "self < length s1"
    using Cons.prems s1 by auto
  from Cons.IH[OF this]
  obtain s' where s': "remove_children s1 self ks = Inr s'" "length s' = length s1"
    "\<forall>x. message (s' ! x) = message (s1 ! x)"
    "\<forall>x. children (s' ! x) = (if x = self then rest else children (s1 ! x))"
    "\<forall>x. parent (s' ! x) = (if x \<in> set ks then None else parent (s1 ! x))"
    by blast
  show ?case
    using s1 s' by auto
qed

section \<open>Trees in the store\<close>

text \<open>
  A tree of containers as a value: the address of a container and the trees of its
  children, in order. \<open>tree_at s t\<close> says that the store holds the tree \<open>t\<close>: the
  children list of every node of \<open>t\<close> is the list of the roots of its subtrees, and
  each subtree's root points back to its parent. When the addresses of \<open>t\<close> are
  distinct, pruning that tree in the store is the function \<open>fprune\<close> on the value.
\<close>

datatype ctree = CNode cid "ctree list"

fun croot :: "ctree \<Rightarrow> cid" where
  "croot (CNode c ts) = c"

fun cids :: "ctree \<Rightarrow> cid list" where
  "cids (CNode c ts) = c # concat (map cids ts)"

fun height :: "ctree \<Rightarrow> nat" where
  "height (CNode c ts) = Suc (foldr max (map height ts) 0)"

fun tree_at :: "store \<Rightarrow> ctree \<Rightarrow> bool" where
  "tree_at s (CNode c ts) =
     (c < length s \<and> children (s ! c) = map croot ts \<and>
      (\<forall>t \<in> set ts. parent (s ! croot t) = Some c \<and> tree_at s t))"

fun fprune :: "(cid \<Rightarrow> bool) \<Rightarrow> bool \<Rightarrow> ctree \<Rightarrow> ctree list" where
  "fprune hm hp (CNode c ts) =
     (let ks = concat (map (fprune hm True) ts)
      in if \<not> hm c \<and> ks = [] then []
         else if \<not> hm c \<and> (length ks = 1 \<or> hp) then ks
         else [CNode c ks])"

lemma croot_in_cids: "croot t \<in> set (cids t)"
  by (cases t) simp

lemma tree_at_valid: "tree_at s t \<Longrightarrow> x \<in> set (cids t) \<Longrightarrow> x < length s"
  by (induction t arbitrary: x) auto

lemma tree_at_cong:
  assumes "tree_at s t" "length s' = length s"
    "\<forall>x \<in> set (cids t). children (s' ! x) = children (s ! x)"
    "\<forall>x \<in> set (cids t). x \<noteq> croot t \<longrightarrow> parent (s' ! x) = parent (s ! x)"
    "distinct (cids t)"
  shows "tree_at s' t"
  using assms
proof (induction t)
  case (CNode c ts)
  have "tree_at s' k \<and> parent (s' ! croot k) = Some c" if k: "k \<in> set ts" for k
  proof -
    have sub: "set (cids k) \<subseteq> set (concat (map cids ts))"
      using k by auto
    have ne: "croot k \<noteq> c"
      using CNode.prems(5) sub croot_in_cids[of k] by auto
    have dk: "distinct (cids k)"
      using CNode.prems(5) k by (auto simp: distinct_concat_iff)
    have tk: "tree_at s k"
      using CNode.prems(1) k by simp
    have ck: "\<forall>x \<in> set (cids k). children (s' ! x) = children (s ! x)"
      using CNode.prems(3) sub by auto
    have pk: "\<forall>x \<in> set (cids k). x \<noteq> croot k \<longrightarrow> parent (s' ! x) = parent (s ! x)"
    proof (intro ballI impI)
      fix x assume "x \<in> set (cids k)" "x \<noteq> croot k"
      then have "x \<in> set (cids (CNode c ts))" "x \<noteq> c"
        using sub CNode.prems(5) by auto
      with CNode.prems(4) show "parent (s' ! x) = parent (s ! x)" by auto
    qed
    have "tree_at s' k"
      by (rule CNode.IH[OF k tk CNode.prems(2) ck pk dk])
    moreover have "parent (s' ! croot k) = Some c"
      using CNode.prems k sub ne croot_in_cids[of k] by auto
    ultimately show ?thesis by simp
  qed
  with CNode.prems show ?case by auto
qed

lemma height_le_foldr: "t \<in> set ts \<Longrightarrow> height t \<le> foldr max (map height ts) 0"
  by (induction ts) auto

lemma fprune_cids: "set (concat (map cids (fprune hm hp t))) \<subseteq> set (cids t)"
proof (induction t arbitrary: hp)
  case (CNode c ts)
  have "set (concat (map cids (concat (map (fprune hm True) ts)))) \<subseteq> set (concat (map cids ts))"
    using CNode.IH by fastforce
  then show ?case
    by (auto simp: Let_def)
qed


lemma distinct_concat_sub:
  assumes "distinct (concat (map f xs))"
    "\<forall>x \<in> set xs. distinct (g x) \<and> set (g x) \<subseteq> set (f x)"
  shows "distinct (concat (map g xs))"
  using assms
proof (induction xs)
  case Nil
  then show ?case by simp
next
  case (Cons a xs)
  have "set (concat (map g xs)) \<subseteq> set (concat (map f xs))"
    using Cons.prems(2) by auto
  with Cons show ?case
    by auto
qed

lemma concat_cids_concat:
  "concat (map cids (concat (map F ts))) = concat (map (\<lambda>t. concat (map cids (F t))) ts)"
  by (induction ts) auto

lemma fprune_distinct: "distinct (cids t) \<Longrightarrow> distinct (concat (map cids (fprune hm hp t)))"
proof (induction t arbitrary: hp)
  case (CNode c ts)
  let ?ks = "concat (map (fprune hm True) ts)"
  have d: "distinct (concat (map cids ts))" and c: "c \<notin> set (concat (map cids ts))"
    using CNode.prems by auto
  have each: "\<forall>t \<in> set ts. distinct (concat (map cids (fprune hm True t))) \<and>
      set (concat (map cids (fprune hm True t))) \<subseteq> set (cids t)"
  proof
    fix t assume t: "t \<in> set ts"
    then have "distinct (cids t)"
      using d by (auto simp: distinct_concat_iff)
    with CNode.IH[OF t] fprune_cids[of hm True t]
    show "distinct (concat (map cids (fprune hm True t))) \<and>
      set (concat (map cids (fprune hm True t))) \<subseteq> set (cids t)"
      by blast
  qed
  have dk: "distinct (concat (map cids ?ks))"
    unfolding concat_cids_concat
    by (rule distinct_concat_sub[OF d each])
  have sub: "set (concat (map cids ?ks)) \<subseteq> set (concat (map cids ts))"
    unfolding concat_cids_concat using each by auto
  with c have "c \<notin> set (concat (map cids ?ks))" by blast
  with dk show ?case
    by (simp add: Let_def)
qed

lemma fprune_root:
  assumes "distinct (cids t)" "r \<in> set (fprune hm hp t)" "croot t \<in> set (cids r)"
  shows "croot r = croot t"
proof (cases t)
  case (CNode c ts)
  let ?ks = "concat (map (fprune hm True) ts)"
  have c: "c \<notin> set (concat (map cids ts))"
    using assms(1) CNode by auto
  have "set (concat (map cids ?ks)) \<subseteq> set (concat (map cids ts))"
    unfolding concat_cids_concat using fprune_cids[of hm True] by auto
  with c have notin: "c \<notin> set (concat (map cids ?ks))" by blast
  show ?thesis
  proof (cases "r \<in> set ?ks")
    case True
    with notin have "c \<notin> set (cids r)" by auto
    with assms(3) CNode show ?thesis by simp
  next
    case False
    with assms(2) CNode have "r = CNode c ?ks"
      by (auto simp: Let_def split: if_splits)
    with CNode show ?thesis by simp
  qed
qed

lemma distinct_cids_same_root:
  assumes "distinct (concat (map cids ks))" "k \<in> set ks" "k' \<in> set ks"
    "x \<in> set (cids k)" "x \<in> set (cids k')"
  shows "croot k = croot k'"
  using assms
proof (induction ks)
  case Nil
  then show ?case by simp
next
  case (Cons a ks)
  then show ?case
    by (cases "k = a"; cases "k' = a") auto
qed

lemma distinct_cids_roots:
  assumes "distinct (concat (map cids ks))"
  shows "distinct (map croot ks)"
  using assms
proof (induction ks)
  case Nil
  then show ?case by simp
next
  case (Cons a ks)
  have "croot a \<notin> set (map croot ks)"
  proof
    assume "croot a \<in> set (map croot ks)"
    then obtain k where "k \<in> set ks" "croot k = croot a" by auto
    then have "croot a \<in> set (concat (map cids ks))"
      using croot_in_cids[of k] by auto
    with Cons.prems croot_in_cids[of a] show False by auto
  qed
  with Cons show ?case by simp
qed

definition prune_post :: "store \<Rightarrow> store \<Rightarrow> cid list \<Rightarrow> ctree list \<Rightarrow> bool" where
  "prune_post s s' region rs =
     (length s' = length s \<and> (\<forall>x. message (s' ! x) = message (s ! x)) \<and>
      (\<forall>x. x \<notin> set region \<longrightarrow>
           children (s' ! x) = children (s ! x) \<and> parent (s' ! x) = parent (s ! x)) \<and>
      (\<forall>r \<in> set rs. tree_at s' r))"

definition prunes_to :: "nat \<Rightarrow> store \<Rightarrow> ctree \<Rightarrow> bool" where
  "prunes_to n s t =
     (\<exists>s'. prune_container n s (croot t) =
             Some (Inr (map croot
               (fprune (\<lambda>x. \<not> is_dummy s x) (parent (s ! croot t) \<noteq> None) t), s')) \<and>
           prune_post s s' (cids t)
             (fprune (\<lambda>x. \<not> is_dummy s x) (parent (s ! croot t) \<noteq> None) t) \<and>
           parent (s' ! croot t) = parent (s ! croot t) \<and>
           (\<forall>r \<in> set (fprune (\<lambda>x. \<not> is_dummy s x) (parent (s ! croot t) \<noteq> None) t).
              croot r \<noteq> croot t \<longrightarrow> parent (s' ! croot r) = None))"

lemma is_dummy_messages:
  "\<forall>x. message (s' ! x) = message (s ! x) \<Longrightarrow> (\<lambda>x. \<not> is_dummy s' x) = (\<lambda>x. \<not> is_dummy s x)"
  by (simp add: is_dummy_def)


lemma prune_children_trees:
  assumes elems: "\<forall>t \<in> set ts. \<forall>s. tree_at s t \<and> distinct (cids t) \<longrightarrow> prunes_to n s t"
    and c: "c < length s"
    and kids: "children (s ! c) = map croot ts"
    and trees: "\<forall>t \<in> set ts. tree_at s t \<and> parent (s ! croot t) = Some c"
    and dist: "distinct (c # concat (map cids ts))"
  shows "\<exists>s'. prune_children n s c (map croot ts) acc =
            Some (Inr (acc @ map croot (concat (map (fprune (\<lambda>x. \<not> is_dummy s x) True) ts)), s')) \<and>
          prune_post s s' (c # concat (map cids ts))
            (concat (map (fprune (\<lambda>x. \<not> is_dummy s x) True) ts)) \<and>
          children (s' ! c) = [] \<and> parent (s' ! c) = parent (s ! c) \<and>
          (\<forall>r \<in> set (concat (map (fprune (\<lambda>x. \<not> is_dummy s x) True) ts)).
             parent (s' ! croot r) = None)"
  using assms
proof (induction ts arbitrary: s acc)
  case Nil
  then show ?case
    by (simp add: prune_post_def)
next
  case (Cons t ts)
  let ?hm = "\<lambda>x. \<not> is_dummy s x"
  let ?r1 = "fprune ?hm True t"
  have tt: "tree_at s t" and pt: "parent (s ! croot t) = Some c"
    using Cons.prems(4) by auto
  have dt: "distinct (cids t)" and dts: "distinct (c # concat (map cids ts))"
    and cnt: "c \<notin> set (cids t)"
    and disj: "set (cids t) \<inter> set (concat (map cids ts)) = {}"
    using Cons.prems(5) by auto
  have rt: "croot t < length s" and rtne: "croot t \<noteq> c"
    using tree_at_valid[OF tt croot_in_cids] cnt croot_in_cids[of t] by auto
  from Cons.prems(1) tt dt have "prunes_to n s t" by simp
  then obtain s1 where
    run1: "prune_container n s (croot t) = Some (Inr (map croot ?r1, s1))"
    and post1: "prune_post s s1 (cids t) ?r1"
    and par1: "\<forall>r \<in> set ?r1. croot r \<noteq> croot t \<longrightarrow> parent (s1 ! croot r) = None"
    unfolding prunes_to_def using pt by auto
  from post1 have len1: "length s1 = length s"
    and msg1: "\<forall>x. message (s1 ! x) = message (s ! x)"
    and frame1: "\<forall>x. x \<notin> set (cids t) \<longrightarrow>
           children (s1 ! x) = children (s ! x) \<and> parent (s1 ! x) = parent (s ! x)"
    and trees1: "\<forall>r \<in> set ?r1. tree_at s1 r"
    by (auto simp: prune_post_def)
  have kids1: "children (s1 ! c) = croot t # map croot ts"
    using frame1 cnt Cons.prems(3) by simp
  have "croot t \<in> set (children (s1 ! c))" "c < length s1" "croot t < length s1"
    using kids1 len1 Cons.prems(2) rt by auto
  from remove_child_effect[OF this]
  obtain s2 where rem: "remove_child s1 c (croot t) = Inr s2" and len2: "length s2 = length s1"
    and msg2: "\<forall>x. message (s2 ! x) = message (s1 ! x)"
    and kids2: "\<forall>x. children (s2 ! x) =
        (if x = c then remove1 (croot t) (children (s1 ! c)) else children (s1 ! x))"
    and par2: "\<forall>x. parent (s2 ! x) = (if x = croot t then None else parent (s1 ! x))"
    by blast
  have hm2: "(\<lambda>x. \<not> is_dummy s2 x) = ?hm"
    using msg1 msg2 by (simp add: is_dummy_def)
  let ?ks = "concat (map (fprune ?hm True) ts)"
  have e2: "\<forall>t \<in> set ts. \<forall>s. tree_at s t \<and> distinct (cids t) \<longrightarrow> prunes_to n s t"
    using Cons.prems(1) by simp
  have c2: "c < length s2" using len2 len1 Cons.prems(2) by simp
  have k2: "children (s2 ! c) = map croot ts"
    using kids2 kids1 by simp
  have t2: "\<forall>t' \<in> set ts. tree_at s2 t' \<and> parent (s2 ! croot t') = Some c"
  proof
    fix t' assume t': "t' \<in> set ts"
    then have sub: "set (cids t') \<subseteq> set (concat (map cids ts))" by auto
    have out: "\<forall>x \<in> set (cids t'). x \<notin> set (cids t) \<and> x \<noteq> c \<and> x \<noteq> croot t"
      using sub disj dts croot_in_cids[of t] by auto
    have old: "tree_at s t'" "parent (s ! croot t') = Some c"
      using Cons.prems(4) t' by auto
    have dt': "distinct (cids t')"
      using dts t' by (auto simp: distinct_concat_iff)
    have "tree_at s2 t'"
    proof (rule tree_at_cong[OF old(1) _ _ _ dt'])
      show "length s2 = length s" using len2 len1 by simp
      show "\<forall>x \<in> set (cids t'). children (s2 ! x) = children (s ! x)"
        using out kids2 frame1 by simp
      show "\<forall>x \<in> set (cids t'). x \<noteq> croot t' \<longrightarrow> parent (s2 ! x) = parent (s ! x)"
        using out par2 frame1 by simp
    qed
    moreover have "parent (s2 ! croot t') = Some c"
      using out croot_in_cids[of t'] par2 frame1 old(2) by simp
    ultimately show "tree_at s2 t' \<and> parent (s2 ! croot t') = Some c" by simp
  qed
  from Cons.IH[OF e2 c2 k2 t2 dts, of "acc @ map croot ?r1"]
  obtain s' where
    run': "prune_children n s2 c (map croot ts) (acc @ map croot ?r1) =
            Some (Inr ((acc @ map croot ?r1) @ map croot ?ks, s'))"
    and post': "prune_post s2 s' (c # concat (map cids ts)) ?ks"
    and kc': "children (s' ! c) = []" and pc': "parent (s' ! c) = parent (s2 ! c)"
    and par': "\<forall>r \<in> set ?ks. parent (s' ! croot r) = None"
    unfolding hm2 by blast
  from post' have len': "length s' = length s2"
    and msg': "\<forall>x. message (s' ! x) = message (s2 ! x)"
    and frame': "\<forall>x. x \<notin> set (c # concat (map cids ts)) \<longrightarrow>
           children (s' ! x) = children (s2 ! x) \<and> parent (s' ! x) = parent (s2 ! x)"
    and trees': "\<forall>r \<in> set ?ks. tree_at s' r"
    by (auto simp: prune_post_def)
  have run: "prune_children n s c (map croot (t # ts)) acc =
       Some (Inr (acc @ map croot (?r1 @ ?ks), s'))"
    using run1 rem run' by simp
  have r1_prop: "tree_at s' r \<and> parent (s' ! croot r) = None" if r: "r \<in> set ?r1" for r
  proof -
    have sub: "set (cids r) \<subseteq> set (cids t)"
      using fprune_cids[of ?hm True t] r by auto
    have dr: "distinct (cids r)"
      using fprune_distinct[OF dt, of ?hm True] r by (auto simp: distinct_concat_iff)
    have out: "\<forall>x \<in> set (cids r). x \<noteq> c \<and> x \<notin> set (c # concat (map cids ts))"
      using sub cnt disj by auto
    have nonroot: "\<forall>x \<in> set (cids r). x \<noteq> croot r \<longrightarrow> x \<noteq> croot t"
      using fprune_root[OF dt r] by auto
    have "tree_at s' r"
    proof (rule tree_at_cong[OF _ _ _ _ dr])
      show "tree_at s1 r" using trees1 r by simp
      show "length s' = length s1" using len' len2 by simp
      show "\<forall>x \<in> set (cids r). children (s' ! x) = children (s1 ! x)"
        using out frame' kids2 by simp
      show "\<forall>x \<in> set (cids r). x \<noteq> croot r \<longrightarrow> parent (s' ! x) = parent (s1 ! x)"
        using out frame' par2 nonroot by simp
    qed
    moreover have "parent (s' ! croot r) = None"
    proof -
      have "parent (s' ! croot r) = parent (s2 ! croot r)"
        using out croot_in_cids[of r] frame' by simp
      also have "\<dots> = None"
        using par2 par1 r by (cases "croot r = croot t") simp_all
      finally show ?thesis .
    qed
    ultimately show ?thesis by simp
  qed
  have post: "prune_post s s' (c # concat (map cids (t # ts))) (?r1 @ ?ks)"
    unfolding prune_post_def
  proof (intro conjI allI impI ballI)
    show "length s' = length s" using len' len2 len1 by simp
    show "message (s' ! x) = message (s ! x)" for x
      using msg' msg2 msg1 by simp
    show "children (s' ! x) = children (s ! x)"
      if "x \<notin> set (c # concat (map cids (t # ts)))" for x
      using that frame' kids2 frame1 by simp
    show "parent (s' ! x) = parent (s ! x)"
      if "x \<notin> set (c # concat (map cids (t # ts)))" for x
      using that frame' par2 frame1 croot_in_cids[of t] by auto
    show "tree_at s' r" if "r \<in> set (?r1 @ ?ks)" for r
      using that r1_prop trees' by auto
  qed
  have pc: "parent (s' ! c) = parent (s ! c)"
    using pc' par2 rtne frame1 cnt by simp
  have pr: "\<forall>r \<in> set (?r1 @ ?ks). parent (s' ! croot r) = None"
    using r1_prop par' by auto
  show ?case
    using run post kc' pc pr by simp
qed


lemma fprune_list_distinct:
  assumes "distinct (concat (map cids ts))"
  shows "distinct (concat (map cids (concat (map (fprune hm hp) ts))))"
  unfolding concat_cids_concat
proof (rule distinct_concat_sub[OF assms], intro ballI conjI)
  fix t assume "t \<in> set ts"
  then have "distinct (cids t)"
    using assms by (auto simp: distinct_concat_iff)
  then show "distinct (concat (map cids (fprune hm hp t)))"
    by (rule fprune_distinct)
  show "set (concat (map cids (fprune hm hp t))) \<subseteq> set (cids t)"
    by (rule fprune_cids)
qed

lemma height_pos: "0 < height t"
  by (cases t) simp

lemma prune_tree:
  assumes "tree_at s t" "distinct (cids t)" "height t \<le> n"
  shows "prunes_to n s t"
  using assms
proof (induction t arbitrary: s n)
  case (CNode c ts)
  let ?hm = "\<lambda>x. \<not> is_dummy s x"
  let ?hp = "parent (s ! c) \<noteq> None"
  let ?ks = "concat (map (fprune ?hm True) ts)"
  from CNode.prems(3) obtain m where n: "n = Suc m" and hm: "foldr max (map height ts) 0 \<le> m"
    by (cases n) auto
  have elems: "\<forall>t \<in> set ts. \<forall>s. tree_at s t \<and> distinct (cids t) \<longrightarrow> prunes_to m s t"
  proof (intro ballI allI impI)
    fix t s' assume t: "t \<in> set ts" and "tree_at s' t \<and> distinct (cids t)"
    moreover have "height t \<le> m"
      using height_le_foldr[OF t] hm by simp
    ultimately show "prunes_to m s' t"
      using CNode.IH[OF t] by simp
  qed
  have c: "c < length s" and kids: "children (s ! c) = map croot ts"
    and trees: "\<forall>t \<in> set ts. tree_at s t \<and> parent (s ! croot t) = Some c"
    using CNode.prems(1) by auto
  have dist: "distinct (c # concat (map cids ts))"
    using CNode.prems(2) by simp
  from prune_children_trees[OF elems c kids trees dist, of "[]"]
  obtain s1 where
    run1: "prune_children m s c (map croot ts) [] = Some (Inr (map croot ?ks, s1))"
    and post1: "prune_post s s1 (c # concat (map cids ts)) ?ks"
    and kc1: "children (s1 ! c) = []" and pc1: "parent (s1 ! c) = parent (s ! c)"
    and par1: "\<forall>r \<in> set ?ks. parent (s1 ! croot r) = None"
    by auto
  from post1 have len1: "length s1 = length s"
    and msg1: "\<forall>x. message (s1 ! x) = message (s ! x)"
    and frame1: "\<forall>x. x \<notin> set (c # concat (map cids ts)) \<longrightarrow>
           children (s1 ! x) = children (s ! x) \<and> parent (s1 ! x) = parent (s ! x)"
    and trees1: "\<forall>r \<in> set ?ks. tree_at s1 r"
    by (auto simp: prune_post_def)
  have dks: "distinct (concat (map cids ?ks))"
    using dist by (intro fprune_list_distinct) simp
  have subks: "set (concat (map cids ?ks)) \<subseteq> set (concat (map cids ts))"
    unfolding concat_cids_concat using fprune_cids[of ?hm True] by auto
  have cks: "c \<notin> set (concat (map cids ?ks))"
    using subks dist by auto
  have droots: "distinct (map croot ?ks)"
    by (rule distinct_cids_roots[OF dks])
  have vroots: "\<forall>k \<in> set (map croot ?ks). k < length s1 \<and> parent (s1 ! k) = None"
  proof
    fix k assume "k \<in> set (map croot ?ks)"
    then obtain r where r: "r \<in> set ?ks" "k = croot r" by auto
    from trees1 r(1) have "tree_at s1 r" by blast
    moreover from par1 r(1) have "parent (s1 ! croot r) = None" by blast
    ultimately show "k < length s1 \<and> parent (s1 ! k) = None"
      using tree_at_valid[OF _ croot_in_cids, of s1 r] r(2) by simp
  qed
  have c1: "c < length s1" using c len1 by simp
  from add_children_effect[OF droots vroots c1]
  obtain s2 where add: "add_children s1 c (map croot ?ks) = Inr s2"
    and len2: "length s2 = length s1"
    and msg2: "\<forall>x. message (s2 ! x) = message (s1 ! x)"
    and kids2: "\<forall>x. children (s2 ! x) =
        (if x = c then children (s1 ! c) @ map croot ?ks else children (s1 ! x))"
    and par2: "\<forall>x. parent (s2 ! x) =
        (if x \<in> set (map croot ?ks) then Some c else parent (s1 ! x))"
    by blast
  have croots: "c \<notin> set (map croot ?ks)"
    using cks croot_in_cids by auto
  have kc2: "children (s2 ! c) = map croot ?ks"
    using kids2 kc1 by simp
  have pc2: "parent (s2 ! c) = parent (s ! c)"
    using par2 croots pc1 by simp
  have mc2: "message (s2 ! c) = message (s ! c)"
    using msg2 msg1 by simp
  have sub2: "tree_at s2 k \<and> parent (s2 ! croot k) = Some c" if k: "k \<in> set ?ks" for k
  proof -
    have dk: "distinct (cids k)"
      using dks k by (auto simp: distinct_concat_iff)
    have nc: "\<forall>x \<in> set (cids k). x \<noteq> c"
      using cks k by auto
    have nr: "\<forall>x \<in> set (cids k). x \<noteq> croot k \<longrightarrow> x \<notin> set (map croot ?ks)"
    proof (intro ballI impI notI)
      fix x assume x: "x \<in> set (cids k)" "x \<noteq> croot k" "x \<in> set (map croot ?ks)"
      then obtain k' where k': "k' \<in> set ?ks" "x = croot k'" by auto
      from distinct_cids_same_root[OF dks k k'(1) x(1)] k'(2) croot_in_cids[of k'] x(2)
      show False by simp
    qed
    have "tree_at s2 k"
    proof (rule tree_at_cong[OF _ _ _ _ dk])
      show "tree_at s1 k" using trees1 k by blast
      show "length s2 = length s1" by (rule len2)
      show "\<forall>x \<in> set (cids k). children (s2 ! x) = children (s1 ! x)"
        using nc kids2 by simp
      show "\<forall>x \<in> set (cids k). x \<noteq> croot k \<longrightarrow> parent (s2 ! x) = parent (s1 ! x)"
        using nr par2 by simp
    qed
    moreover have "parent (s2 ! croot k) = Some c"
      using par2 k by simp
    ultimately show ?thesis by simp
  qed
  have len_s2: "length s2 = length s" using len2 len1 by simp
  have msg_s2: "\<forall>x. message (s2 ! x) = message (s ! x)" using msg2 msg1 by simp
  have frame_s2: "\<forall>x. x \<notin> set (cids (CNode c ts)) \<longrightarrow>
           children (s2 ! x) = children (s ! x) \<and> parent (s2 ! x) = parent (s ! x)"
  proof (intro allI impI)
    fix x assume x: "x \<notin> set (cids (CNode c ts))"
    then have "x \<noteq> c" "x \<notin> set (map croot ?ks)" "x \<notin> set (c # concat (map cids ts))"
      using subks croot_in_cids by auto
    then show "children (s2 ! x) = children (s ! x) \<and> parent (s2 ! x) = parent (s ! x)"
      using kids2 par2 frame1 by simp
  qed
  have dummy: "is_dummy s c = (message (s2 ! c) = None)"
    using mc2 by (simp add: is_dummy_def)
  have run: "prune_container n s c =
      (case prune_decide s2 c of Inl e \<Rightarrow> Some (Inl e) | Inr r \<Rightarrow> Some (Inr r))"
    using n kids run1 add by (simp split: sum.splits)
  show ?case
  proof (cases "\<not> ?hm c \<and> ?ks = []")
    case True
    then have res: "fprune ?hm ?hp (CNode c ts) = []"
      by (simp add: Let_def)
    have "prune_decide s2 c = Inr ([], s2)"
      using True dummy kc2 by (simp add: prune_decide_def)
    with run have "prune_container n s (croot (CNode c ts)) = Some (Inr ([], s2))"
      by simp
    moreover have "prune_post s s2 (cids (CNode c ts)) []"
      using len_s2 msg_s2 frame_s2 by (simp add: prune_post_def)
    ultimately show ?thesis
      unfolding prunes_to_def using res pc2 by auto
  next
    case notempty: False
    show ?thesis
    proof (cases "\<not> ?hm c \<and> (length ?ks = 1 \<or> ?hp)")
      case True
      with notempty have res: "fprune ?hm ?hp (CNode c ts) = ?ks"
        by (simp add: Let_def)
      have "children (s2 ! c) = map croot ?ks @ []" using kc2 by simp
      moreover have "\<forall>k \<in> set (map croot ?ks). k < length s2"
        using vroots len2 by simp
      moreover have "c < length s2" using c len_s2 by simp
      ultimately obtain s3 where rm: "remove_children s2 c (map croot ?ks) = Inr s3"
        and len3: "length s3 = length s2"
        and msg3: "\<forall>x. message (s3 ! x) = message (s2 ! x)"
        and kids3: "\<forall>x. children (s3 ! x) = (if x = c then [] else children (s2 ! x))"
        and par3: "\<forall>x. parent (s3 ! x) =
            (if x \<in> set (map croot ?ks) then None else parent (s2 ! x))"
        using remove_children_effect[of s2 c "map croot ?ks" "[]"] by blast
      have "prune_decide s2 c = Inr (map croot ?ks, s3)"
        using True notempty dummy kc2 pc2 rm by (auto simp: prune_decide_def)
      with run have r: "prune_container n s (croot (CNode c ts)) = Some (Inr (map croot ?ks, s3))"
        by simp
      have t3: "tree_at s3 k \<and> parent (s3 ! croot k) = None" if k: "k \<in> set ?ks" for k
      proof -
        have dk: "distinct (cids k)"
          using dks k by (auto simp: distinct_concat_iff)
        have nc: "\<forall>x \<in> set (cids k). x \<noteq> c"
          using cks k by auto
        have nr: "\<forall>x \<in> set (cids k). x \<noteq> croot k \<longrightarrow> x \<notin> set (map croot ?ks)"
        proof (intro ballI impI notI)
          fix x assume x: "x \<in> set (cids k)" "x \<noteq> croot k" "x \<in> set (map croot ?ks)"
          then obtain k' where k': "k' \<in> set ?ks" "x = croot k'" by auto
          from distinct_cids_same_root[OF dks k k'(1) x(1)] k'(2) croot_in_cids[of k'] x(2)
          show False by simp
        qed
        have "tree_at s3 k"
        proof (rule tree_at_cong[OF _ _ _ _ dk])
          show "tree_at s2 k" using sub2 k by simp
          show "length s3 = length s2" by (rule len3)
          show "\<forall>x \<in> set (cids k). children (s3 ! x) = children (s2 ! x)"
            using nc kids3 by simp
          show "\<forall>x \<in> set (cids k). x \<noteq> croot k \<longrightarrow> parent (s3 ! x) = parent (s2 ! x)"
            using nr par3 by simp
        qed
        moreover have "parent (s3 ! croot k) = None"
          using par3 k by simp
        ultimately show ?thesis by simp
      qed
      have "prune_post s s3 (cids (CNode c ts)) ?ks"
        unfolding prune_post_def
      proof (intro conjI allI impI ballI)
        show "length s3 = length s" using len3 len_s2 by simp
        show "message (s3 ! x) = message (s ! x)" for x using msg3 msg_s2 by simp
        show "children (s3 ! x) = children (s ! x)" if "x \<notin> set (cids (CNode c ts))" for x
          using that kids3 frame_s2 by simp
        show "parent (s3 ! x) = parent (s ! x)" if "x \<notin> set (cids (CNode c ts))" for x
        proof -
          have "x \<notin> set (map croot ?ks)"
            using that subks croot_in_cids by auto
          with that par3 frame_s2 show ?thesis by simp
        qed
        show "tree_at s3 r" if "r \<in> set ?ks" for r using t3 that by simp
      qed
      moreover have "parent (s3 ! c) = parent (s ! c)"
        using par3 croots pc2 by simp
      ultimately show ?thesis
        unfolding prunes_to_def using res r t3 by auto
    next
      case False
      with notempty have res: "fprune ?hm ?hp (CNode c ts) = [CNode c ?ks]"
        by (auto simp: Let_def)
      have "prune_decide s2 c = Inr ([c], s2)"
        using False notempty dummy kc2 pc2 by (auto simp: prune_decide_def)
      with run have r: "prune_container n s (croot (CNode c ts)) = Some (Inr ([c], s2))"
        by simp
      have "tree_at s2 (CNode c ?ks)"
        using c len_s2 kc2 sub2 by simp
      then have "prune_post s s2 (cids (CNode c ts)) [CNode c ?ks]"
        using len_s2 msg_s2 frame_s2 by (simp add: prune_post_def)
      then show ?thesis
        unfolding prunes_to_def using res r pc2 by auto
    qed
  qed
qed

section \<open>Well-formed stores\<close>

text \<open>
  The invariant of the data model: a container is in the children list of another
  exactly when its parent pointer points there, no children list repeats a
  container, and every address in the store is the address of a container.
\<close>

definition wf_store :: "store \<Rightarrow> bool" where
  "wf_store s =
     (\<forall>c \<in> set [0..<length s].
        distinct (children (s ! c)) \<and>
        (\<forall>k \<in> set (children (s ! c)). k < length s \<and> parent (s ! k) = Some c) \<and>
        (case parent (s ! c) of
           None \<Rightarrow> True
         | Some p \<Rightarrow> p < length s \<and> c \<in> set (children (s ! p))))"

text \<open>The edges from a container to its children.\<close>

definition child_rel :: "store \<Rightarrow> (cid \<times> cid) set" where
  "child_rel s = {(p, k). p < length s \<and> k \<in> set (children (s ! p))}"

lemma case_option_all:
  "(case x of None \<Rightarrow> True | Some p \<Rightarrow> Q p) = (\<forall>p. x = Some p \<longrightarrow> Q p)"
  by (cases x) simp_all

lemma wf_store_iff:
  "wf_store s \<longleftrightarrow>
     (\<forall>c < length s.
        distinct (children (s ! c)) \<and>
        (\<forall>k \<in> set (children (s ! c)). k < length s \<and> parent (s ! k) = Some c) \<and>
        (\<forall>p. parent (s ! c) = Some p \<longrightarrow> p < length s \<and> c \<in> set (children (s ! p))))"
  unfolding wf_store_def case_option_all
  by (simp add: Ball_def)

lemma wf_storeD:
  assumes "wf_store s" "c < length s"
  shows "distinct (children (s ! c))"
    and "k \<in> set (children (s ! c)) \<Longrightarrow> k < length s \<and> parent (s ! k) = Some c"
    and "parent (s ! c) = Some p \<Longrightarrow> p < length s \<and> c \<in> set (children (s ! p))"
proof -
  from assms have a: "distinct (children (s ! c)) \<and>
        (\<forall>k \<in> set (children (s ! c)). k < length s \<and> parent (s ! k) = Some c) \<and>
        (\<forall>p. parent (s ! c) = Some p \<longrightarrow> p < length s \<and> c \<in> set (children (s ! p)))"
    unfolding wf_store_iff by blast
  from a show "distinct (children (s ! c))" by blast
  from a show "k \<in> set (children (s ! c)) \<Longrightarrow> k < length s \<and> parent (s ! k) = Some c" by blast
  from a show "parent (s ! c) = Some p \<Longrightarrow> p < length s \<and> c \<in> set (children (s ! p))" by blast
qed


lemma child_rel_parent:
  assumes "wf_store s"
  shows "(p, k) \<in> child_rel s \<longleftrightarrow> k < length s \<and> parent (s ! k) = Some p"
proof
  assume "(p, k) \<in> child_rel s"
  then have "p < length s" "k \<in> set (children (s ! p))"
    by (simp_all add: child_rel_def)
  from wf_storeD(2)[OF assms this] show "k < length s \<and> parent (s ! k) = Some p" .
next
  assume a: "k < length s \<and> parent (s ! k) = Some p"
  then have "k < length s" "parent (s ! k) = Some p" by simp_all
  from wf_storeD(3)[OF assms this] show "(p, k) \<in> child_rel s"
    by (simp add: child_rel_def)
qed

lemma child_rel_single: "wf_store s \<Longrightarrow> single_valued ((child_rel s)\<inverse>)"
  by (simp add: single_valued_def child_rel_parent)

lemma anc_chain:
  assumes "wf_store s" "(a, x) \<in> (child_rel s)\<^sup>*" "(b, x) \<in> (child_rel s)\<^sup>*"
  shows "(a, b) \<in> (child_rel s)\<^sup>* \<or> (b, a) \<in> (child_rel s)\<^sup>*"
proof -
  have "(x, a) \<in> ((child_rel s)\<inverse>)\<^sup>*" "(x, b) \<in> ((child_rel s)\<inverse>)\<^sup>*"
    using assms(2,3) by (simp_all add: rtrancl_converse)
  from single_valued_confluent[OF child_rel_single[OF assms(1)] this]
  show ?thesis
    by (auto simp: rtrancl_converse)
qed

lemma reach_valid:
  assumes "wf_store s" "(c, x) \<in> (child_rel s)\<^sup>*" "c < length s"
  shows "x < length s"
  using assms(2,3)
  by (induction rule: rtrancl_induct) (auto simp: child_rel_parent[OF assms(1)])

lemma root_not_cyclic:
  assumes "wf_store s" "parent (s ! c) = None"
  shows "(c, c) \<notin> (child_rel s)\<^sup>+"
proof
  assume "(c, c) \<in> (child_rel s)\<^sup>+"
  then obtain y where "(y, c) \<in> child_rel s"
    by (meson tranclD2)
  with assms show False
    by (simp add: child_rel_parent)
qed

lemma child_not_back:
  assumes "wf_store s" "(c, c) \<notin> (child_rel s)\<^sup>+" "(c, k) \<in> child_rel s"
  shows "(k, c) \<notin> (child_rel s)\<^sup>*" and "(k, k) \<notin> (child_rel s)\<^sup>+"
proof -
  show nb: "(k, c) \<notin> (child_rel s)\<^sup>*"
    using assms(2,3) by (meson rtrancl_into_trancl2)
  show "(k, k) \<notin> (child_rel s)\<^sup>+"
  proof
    assume "(k, k) \<in> (child_rel s)\<^sup>+"
    then obtain y where y: "(k, y) \<in> (child_rel s)\<^sup>*" "(y, k) \<in> child_rel s"
      by (meson tranclD2)
    with assms(1,3) have "y = c"
      by (simp add: child_rel_parent)
    with y nb show False by simp
  qed
qed

lemma distinct_concat_disjoint:
  assumes "distinct ks" "\<forall>k \<in> set ks. distinct (g k)"
    "\<forall>k \<in> set ks. \<forall>k' \<in> set ks. k \<noteq> k' \<longrightarrow> set (g k) \<inter> set (g k') = {}"
  shows "distinct (concat (map g ks))"
  using assms
proof (induction ks)
  case Nil
  then show ?case by simp
next
  case (Cons a ks)
  have "set (g a) \<inter> set (g k) = {}" if "k \<in> set ks" for k
    using Cons.prems(1,3) that by auto
  then have "set (g a) \<inter> set (concat (map g ks)) = {}"
    by auto
  moreover have "distinct (concat (map g ks))"
    using Cons by simp
  moreover have "distinct (g a)"
    using Cons.prems(2) by simp
  ultimately show ?case by simp
qed

lemma root_tree:
  assumes wf: "wf_store s"
  shows "c < length s \<Longrightarrow> (c, c) \<notin> (child_rel s)\<^sup>+ \<Longrightarrow>
         \<exists>t. croot t = c \<and> tree_at s t \<and> distinct (cids t) \<and>
             set (cids t) = (child_rel s)\<^sup>* `` {c}"
proof (induction "card ((child_rel s)\<^sup>* `` {c})" arbitrary: c rule: less_induct)
  case less
  let ?E = "child_rel s"
  let ?ks = "children (s ! c)"
  have fin: "finite (?E\<^sup>* `` {c})"
  proof (rule finite_subset)
    show "?E\<^sup>* `` {c} \<subseteq> {..<length s}"
      using reach_valid[OF wf _ less.prems(1)] by auto
  qed simp
  have each: "\<exists>t. croot t = k \<and> tree_at s t \<and> distinct (cids t) \<and>
             set (cids t) = ?E\<^sup>* `` {k}" if k: "k \<in> set ?ks" for k
  proof -
    have edge: "(c, k) \<in> ?E"
      using k less.prems(1) by (simp add: child_rel_def)
    have kv: "k < length s"
      using wf_storeD(2)[OF wf less.prems(1) k] by simp
    have nb: "(k, c) \<notin> ?E\<^sup>*" and nc: "(k, k) \<notin> ?E\<^sup>+"
      using child_not_back[OF wf less.prems(2) edge] by auto
    have "?E\<^sup>* `` {k} \<subseteq> ?E\<^sup>* `` {c}"
      using edge by (auto intro: converse_rtrancl_into_rtrancl)
    moreover have "c \<in> ?E\<^sup>* `` {c}" "c \<notin> ?E\<^sup>* `` {k}"
      using nb by auto
    ultimately have "?E\<^sup>* `` {k} \<subset> ?E\<^sup>* `` {c}"
      by blast
    then have "card (?E\<^sup>* `` {k}) < card (?E\<^sup>* `` {c})"
      using fin by (rule psubset_card_mono[rotated])
    from less.hyps[OF this kv nc] show ?thesis .
  qed
  then obtain f where f: "\<forall>k \<in> set ?ks. croot (f k) = k \<and> tree_at s (f k) \<and>
      distinct (cids (f k)) \<and> set (cids (f k)) = ?E\<^sup>* `` {k}"
    by metis
  let ?t = "CNode c (map f ?ks)"
  have roots: "map croot (map f ?ks) = ?ks"
    using f by (simp add: map_idI)
  have ta: "tree_at s ?t"
    using less.prems(1) roots f wf_storeD(2)[OF wf less.prems(1)] by auto
  have cnot: "c \<notin> set (concat (map cids (map f ?ks)))"
  proof
    assume "c \<in> set (concat (map cids (map f ?ks)))"
    then obtain k where k: "k \<in> set ?ks" "c \<in> set (cids (f k))" by auto
    then have "(k, c) \<in> ?E\<^sup>*" using f by auto
    moreover have "(c, k) \<in> ?E"
      using k less.prems(1) by (simp add: child_rel_def)
    ultimately show False
      using child_not_back(1)[OF wf less.prems(2)] by blast
  qed
  have disj: "\<forall>k \<in> set ?ks. \<forall>k' \<in> set ?ks. k \<noteq> k' \<longrightarrow>
      set (cids (f k)) \<inter> set (cids (f k')) = {}"
  proof (intro ballI impI)
    fix k k' assume k: "k \<in> set ?ks" and k': "k' \<in> set ?ks" and ne: "k \<noteq> k'"
    have ek: "(c, k) \<in> ?E" and ek': "(c, k') \<in> ?E"
      using k k' less.prems(1) by (simp_all add: child_rel_def)
    have no: "(a, b) \<notin> ?E\<^sup>*" if "(c, a) \<in> ?E" "(c, b) \<in> ?E" "a \<noteq> b" for a b
    proof
      assume "(a, b) \<in> ?E\<^sup>*"
      with that(3) have "(a, b) \<in> ?E\<^sup>+"
        by (simp add: rtrancl_eq_or_trancl)
      then obtain y where y: "(a, y) \<in> ?E\<^sup>*" "(y, b) \<in> ?E"
        by (meson tranclD2)
      with that(2) wf have "y = c"
        by (simp add: child_rel_parent)
      with y child_not_back(1)[OF wf less.prems(2) that(1)] show False by simp
    qed
    show "set (cids (f k)) \<inter> set (cids (f k')) = {}"
    proof (rule ccontr)
      assume "set (cids (f k)) \<inter> set (cids (f k')) \<noteq> {}"
      then obtain x where "x \<in> set (cids (f k))" "x \<in> set (cids (f k'))" by auto
      then have "(k, x) \<in> ?E\<^sup>*" "(k', x) \<in> ?E\<^sup>*"
        using f k k' by auto
      from anc_chain[OF wf this] no[OF ek ek' ne] no[OF ek' ek] ne
      show False by auto
    qed
  qed
  have dc: "distinct (concat (map cids (map f ?ks)))"
    unfolding map_map comp_def
    using distinct_concat_disjoint[of ?ks "\<lambda>k. cids (f k)"] wf_storeD(1)[OF wf less.prems(1)] f disj
    by blast
  have ids: "set (cids ?t) = ?E\<^sup>* `` {c}"
  proof (intro set_eqI iffI)
    fix x assume "x \<in> set (cids ?t)"
    then consider "x = c" | k where "k \<in> set ?ks" "x \<in> set (cids (f k))"
      by auto
    then show "x \<in> ?E\<^sup>* `` {c}"
    proof cases
      case 1
      then show ?thesis by simp
    next
      case 2
      then have "(k, x) \<in> ?E\<^sup>*" using f by auto
      moreover have "(c, k) \<in> ?E" using 2 less.prems(1) by (simp add: child_rel_def)
      ultimately show ?thesis
        by (auto intro: converse_rtrancl_into_rtrancl)
    qed
  next
    fix x assume "x \<in> ?E\<^sup>* `` {c}"
    then have "(c, x) \<in> ?E\<^sup>*" by simp
    then show "x \<in> set (cids ?t)"
    proof (cases rule: converse_rtranclE)
      case base
      then show ?thesis by simp
    next
      case (step y)
      then have "y \<in> set ?ks" by (simp add: child_rel_def)
      moreover from this step f have "x \<in> set (cids (f y))" by auto
      ultimately show ?thesis by auto
    qed
  qed
  show ?case
    using ta cnot dc ids by (intro exI[of _ ?t]) simp
qed

section \<open>Fuel\<close>

text \<open>
  More fuel never changes what \<open>prune_container\<close> returns, and the number of
  containers of a tree is enough fuel to prune it.
\<close>

lemma prune_fuel_mono:
  "(\<forall>r m. prune_container n s c = Some r \<longrightarrow> n \<le> m \<longrightarrow> prune_container m s c = Some r)"
  "(\<forall>r m. prune_children n s c ks acc = Some r \<longrightarrow> n \<le> m \<longrightarrow> prune_children m s c ks acc = Some r)"
proof (induction n s c and n s c ks acc rule: prune_container_prune_children.induct)
  case (1 s container)
  then show ?case by simp
next
  case (2 n s container)
  show ?case
  proof (intro allI impI)
    fix r m assume run: "prune_container (Suc n) s container = Some r" and le: "Suc n \<le> m"
    then obtain m' where m: "m = Suc m'" and le': "n \<le> m'"
      by (cases m) auto
    from run obtain r1 where
      r1: "prune_children n s container (children (s ! container)) [] = Some r1"
      by (auto split: option.splits)
    with 2 le' have "prune_children m' s container (children (s ! container)) [] = Some r1"
      by blast
    with run r1 m show "prune_container m s container = Some r"
      by simp
  qed
next
  case (3 n s container new_children)
  then show ?case by simp
next
  case (4 n s container ctr rest new_children)
  show ?case
  proof (intro allI impI)
    fix r m assume run: "prune_children n s container (ctr # rest) new_children = Some r"
      and le: "n \<le> m"
    from run obtain r1 where r1: "prune_container n s ctr = Some r1"
      by (auto split: option.splits)
    with 4(1) le have m1: "prune_container m s ctr = Some r1" by blast
    show "prune_children m s container (ctr # rest) new_children = Some r"
    proof (cases r1)
      case (Inl e)
      with run r1 m1 show ?thesis by auto
    next
      case (Inr p)
      obtain pruned_child s1 where p: "p = (pruned_child, s1)" by (cases p)
      show ?thesis
      proof (cases "remove_child s1 container ctr")
        case (Inl e)
        with run r1 m1 Inr p show ?thesis by auto
      next
        case rm: (Inr s2)
        with run r1 Inr p have
          "prune_children n s2 container rest (new_children @ pruned_child) = Some r"
          by auto
        with 4(2)[OF r1 Inr p[symmetric] rm] le
        have "prune_children m s2 container rest (new_children @ pruned_child) = Some r"
          by blast
        with m1 Inr p rm show ?thesis by auto
      qed
    qed
  qed
qed

lemma height_le_ids: "height t \<le> length (cids t)"
proof (induction t)
  case (CNode c ts)
  have "foldr max (map height ts) 0 \<le> length (concat (map cids ts))"
    using CNode.IH
  proof (induction ts)
    case Nil
    then show ?case by simp
  next
    case (Cons a ts)
    have "height a \<le> length (cids a)" using Cons.prems by simp
    moreover have "foldr max (map height ts) 0 \<le> length (concat (map cids ts))"
      using Cons by simp
    ultimately show ?case by simp
  qed
  then show ?case by simp
qed

lemma distinct_ids_bound:
  assumes "distinct xs" "\<forall>x \<in> set xs. x < (n::nat)"
  shows "length xs \<le> n"
proof -
  have "card (set xs) \<le> card {..<n}"
    using assms(2) by (intro card_mono) auto
  with assms(1) show ?thesis
    by (simp add: distinct_card)
qed

lemma tree_height_bound:
  assumes "tree_at s t" "distinct (cids t)"
  shows "height t \<le> length s"
proof -
  have "\<forall>x \<in> set (cids t). x < length s"
    using tree_at_valid[OF assms(1)] by blast
  from distinct_ids_bound[OF assms(2) this] height_le_ids[of t]
  show ?thesis by simp
qed

section \<open>Pruned trees\<close>

lemma fprune_True_msgs:
  "r \<in> set (fprune hm True t) \<Longrightarrow> x \<in> set (cids r) \<Longrightarrow> hm x"
proof (induction t arbitrary: r x)
  case (CNode c ts)
  let ?ks = "concat (map (fprune hm True) ts)"
  have ks: "hm y" if "k \<in> set ?ks" "y \<in> set (cids k)" for k y
  proof -
    from that(1) obtain t' where "t' \<in> set ts" "k \<in> set (fprune hm True t')" by auto
    from CNode.IH[OF this that(2)] show ?thesis .
  qed
  show ?case
  proof (cases "r \<in> set ?ks")
    case True
    from ks[OF True CNode.prems(2)] show ?thesis .
  next
    case False
    with CNode.prems(1) have r: "r = CNode c ?ks" and c: "hm c"
      by (auto simp: Let_def split: if_splits)
    from CNode.prems(2) r consider "x = c" | k where "k \<in> set ?ks" "x \<in> set (cids k)"
      by auto
    then show ?thesis
      using c ks by cases auto
  qed
qed

lemma fprune_False_shape:
  assumes "r \<in> set (fprune hm False t)"
  shows "(\<forall>x \<in> set (cids r). hm x) \<or>
         (\<exists>ks. r = CNode (croot r) ks \<and> \<not> hm (croot r) \<and> 2 \<le> length ks \<and>
               (\<forall>k \<in> set ks. \<forall>x \<in> set (cids k). hm x))"
proof (cases t)
  case (CNode c ts)
  let ?ks = "concat (map (fprune hm True) ts)"
  have ks: "hm y" if "k \<in> set ?ks" "y \<in> set (cids k)" for k y
  proof -
    from that(1) obtain t' where "t' \<in> set ts" "k \<in> set (fprune hm True t')" by auto
    from fprune_True_msgs[OF this(2) that(2)] show ?thesis .
  qed
  show ?thesis
  proof (cases "r \<in> set ?ks")
    case True
    with ks show ?thesis by blast
  next
    case False
    with assms CNode have r: "r = CNode c ?ks"
      and cond: "\<not> (\<not> hm c \<and> ?ks = [])" "\<not> (\<not> hm c \<and> length ?ks = 1)"
      by (auto simp: Let_def split: if_splits)
    show ?thesis
    proof (cases "hm c")
      case True
      with r ks have "\<forall>x \<in> set (cids r). hm x" by auto
      then show ?thesis by blast
    next
      case False
      with cond have "2 \<le> length ?ks"
        by (cases ?ks rule: list.exhaust) (auto simp: Suc_le_eq)
      with r False ks show ?thesis by auto
    qed
  qed
qed

lemma concat_map_single: "\<forall>x \<in> set xs. f x = [x] \<Longrightarrow> concat (map f xs) = xs"
  by (induction xs) auto

lemma fprune_clean: "\<forall>x \<in> set (cids t). hm x \<Longrightarrow> fprune hm hp t = [t]"
proof (induction t arbitrary: hp)
  case (CNode c ts)
  have "\<forall>t \<in> set ts. fprune hm True t = [t]"
    using CNode by auto
  then have "concat (map (fprune hm True) ts) = ts"
    by (rule concat_map_single)
  with CNode.prems show ?case
    by (simp add: Let_def)
qed

lemma fprune_idem:
  assumes "r \<in> set (fprune hm False t)"
  shows "fprune hm False r = [r]"
proof -
  from fprune_False_shape[OF assms] consider
    "\<forall>x \<in> set (cids r). hm x"
    | ks where "r = CNode (croot r) ks" "\<not> hm (croot r)" "2 \<le> length ks"
      "\<forall>k \<in> set ks. \<forall>x \<in> set (cids k). hm x"
    by blast
  then show ?thesis
  proof cases
    case 1
    then show ?thesis by (rule fprune_clean)
  next
    case 2
    have "\<forall>k \<in> set ks. fprune hm True k = [k]"
      using 2(4) by (auto simp: fprune_clean)
    then have k: "concat (map (fprune hm True) ks) = ks"
      by (rule concat_map_single)
    have "fprune hm False (CNode (croot r) ks) = [CNode (croot r) ks]"
      using k 2(2,3) by (auto simp: Let_def)
    with 2(1) show ?thesis by simp
  qed
qed

lemma tree_at_closed:
  "tree_at s t \<Longrightarrow> y \<in> set (cids t) \<Longrightarrow> z \<in> set (children (s ! y)) \<Longrightarrow> z \<in> set (cids t)"
proof (induction t)
  case (CNode c ts)
  show ?case
  proof (cases "y = c")
    case True
    with CNode.prems obtain k where "k \<in> set ts" "z = croot k" by auto
    with croot_in_cids[of k] show ?thesis by auto
  next
    case False
    with CNode.prems(2) obtain k where k: "k \<in> set ts" "y \<in> set (cids k)" by auto
    with CNode.prems(1) have "tree_at s k" by simp
    from CNode.IH[OF k(1) this k(2) CNode.prems(3)] k(1) show ?thesis by auto
  qed
qed

lemma tree_reach:
  assumes "tree_at s t" "(croot t, x) \<in> (child_rel s)\<^sup>*"
  shows "x \<in> set (cids t)"
  using assms(2)
proof (induction rule: rtrancl_induct)
  case base
  show ?case by (rule croot_in_cids)
next
  case (step y z)
  then have "z \<in> set (children (s ! y))" by (simp add: child_rel_def)
  from tree_at_closed[OF assms(1) step.IH this] show ?case .
qed

lemma tree_reach_proper:
  assumes "tree_at s (CNode c ks)" "(c, x) \<in> (child_rel s)\<^sup>+"
  shows "x \<in> set (concat (map cids ks))"
proof -
  from assms(2) obtain k where k: "(c, k) \<in> child_rel s" "(k, x) \<in> (child_rel s)\<^sup>*"
    by (meson tranclD)
  with assms(1) obtain k' where k': "k' \<in> set ks" "k = croot k'"
    by (auto simp: child_rel_def)
  with assms(1) have "tree_at s k'" by simp
  from tree_reach[OF this] k k' show ?thesis by auto
qed

lemma tree_at_parent:
  "tree_at s t \<Longrightarrow> x \<in> set (cids t) \<Longrightarrow> x \<noteq> croot t \<Longrightarrow> parent (s ! x) \<noteq> None"
proof (induction t)
  case (CNode c ts)
  from CNode.prems(2,3) obtain k where k: "k \<in> set ts" "x \<in> set (cids k)" by auto
  with CNode.prems(1) have tk: "tree_at s k" "parent (s ! croot k) = Some c" by auto
  show ?case
  proof (cases "x = croot k")
    case True
    with tk show ?thesis by simp
  next
    case False
    from CNode.IH[OF k(1) tk(1) k(2) False] show ?thesis .
  qed
qed

lemma tree_at_fields:
  assumes "tree_at s t" "tree_at s' t" "distinct (cids t)" "x \<in> set (cids t)"
  shows "children (s ! x) = children (s' ! x) \<and> (x \<noteq> croot t \<longrightarrow> parent (s ! x) = parent (s' ! x))"
  using assms
proof (induction t)
  case (CNode c ts)
  show ?case
  proof (cases "x = c")
    case True
    with CNode.prems show ?thesis by simp
  next
    case False
    with CNode.prems(4) obtain k where k: "k \<in> set ts" "x \<in> set (cids k)" by auto
    with CNode.prems have tk: "tree_at s k" "tree_at s' k"
      "parent (s ! croot k) = Some c" "parent (s' ! croot k) = Some c" by auto
    have dk: "distinct (cids k)"
      using CNode.prems(3) k(1) by (auto simp: distinct_concat_iff)
    from CNode.IH[OF k(1) tk(1,2) dk k(2)] tk(3,4) show ?thesis
      by (cases "x = croot k") auto
  qed
qed

lemma prune_root_result:
  assumes "wf_store s" "c < length s" "parent (s ! c) = None" "length s \<le> n"
  shows "\<exists>t s'. croot t = c \<and> tree_at s t \<and> distinct (cids t) \<and>
     prune_container n s c = Some (Inr (map croot (fprune (\<lambda>x. \<not> is_dummy s x) False t), s')) \<and>
     prune_post s s' (cids t) (fprune (\<lambda>x. \<not> is_dummy s x) False t) \<and>
     (\<forall>r \<in> set (fprune (\<lambda>x. \<not> is_dummy s x) False t). parent (s' ! croot r) = None)"
proof -
  from root_tree[OF assms(1,2) root_not_cyclic[OF assms(1,3)]]
  obtain t where t: "croot t = c" "tree_at s t" "distinct (cids t)" by blast
  have "height t \<le> n"
    using tree_height_bound[OF t(2,3)] assms(4) by simp
  from prune_tree[OF t(2,3) this] t(1) assms(3)
  obtain s' where
    run: "prune_container n s c =
        Some (Inr (map croot (fprune (\<lambda>x. \<not> is_dummy s x) False t), s'))"
    and post: "prune_post s s' (cids t) (fprune (\<lambda>x. \<not> is_dummy s x) False t)"
    and pc: "parent (s' ! c) = None"
    and pr: "\<forall>r \<in> set (fprune (\<lambda>x. \<not> is_dummy s x) False t).
              croot r \<noteq> c \<longrightarrow> parent (s' ! croot r) = None"
    unfolding prunes_to_def by auto
  have "\<forall>r \<in> set (fprune (\<lambda>x. \<not> is_dummy s x) False t). parent (s' ! croot r) = None"
    using pc pr by auto
  with t run post show ?thesis by blast
qed

definition nested_store :: store where
  "nested_store =
     [\<lparr>message = Some (mk_message ''A'' [] ''a''), parent = None, children = [1]\<rparr>,
      \<lparr>message = None, parent = Some 0, children = [2, 3]\<rparr>,
      \<lparr>message = Some (mk_message ''B'' [''X'', ''A''] ''b''), parent = Some 1, children = []\<rparr>,
      \<lparr>message = Some (mk_message ''C'' [''X'', ''A''] ''c''), parent = Some 1, children = []\<rparr>]"

definition nested_pruned :: store where
  "nested_pruned =
     [\<lparr>message = Some (mk_message ''A'' [] ''a''), parent = None, children = [2, 3]\<rparr>,
      \<lparr>message = None, parent = None, children = []\<rparr>,
      \<lparr>message = Some (mk_message ''B'' [''X'', ''A''] ''b''), parent = Some 0, children = []\<rparr>,
      \<lparr>message = Some (mk_message ''C'' [''X'', ''A''] ''c''), parent = Some 0, children = []\<rparr>]"

lemma wf_nested_store: "wf_store nested_store"
  by code_simp

lemma root_nested_store:
  "0 < length nested_store" "parent (nested_store ! 0) = None" "length nested_store \<le> 4"
  by code_simp+

lemma prune_nested_store:
  "prune_container 4 nested_store 0 = Some (Inr ([0], nested_pruned))"
  by code_simp

section \<open>The shape of a pruned root\<close>

text \<open>
  C10. Let the store be well formed and \<open>c\<close> a container with no parent (an acyclic
  root). With fuel for the whole store \<open>prune_container\<close> returns, and every container
  it returns has no parent; every proper descendant of a returned container (every
  container of the returned trees that has a parent) has a message; a returned
  container with no message has at least two children, each with a message. Hence
  reading the subject of a returned root raises neither IndexError (empty children
  list) nor AttributeError (child without a message).
\<close>

theorem pruned_root_shape:
  assumes "wf_store s" "c < length s" "parent (s ! c) = None" "length s \<le> n"
  shows "\<exists>roots s'. prune_container n s c = Some (Inr (roots, s')) \<and>
     (\<forall>r \<in> set roots.
        parent (s' ! r) = None \<and>
        (\<forall>x. (r, x) \<in> (child_rel s')\<^sup>+ \<longrightarrow>
             parent (s' ! x) \<noteq> None \<and> message (s' ! x) \<noteq> None) \<and>
        (message (s' ! r) = None \<longrightarrow>
           2 \<le> length (children (s' ! r)) \<and>
           (\<forall>k \<in> set (children (s' ! r)). message (s' ! k) \<noteq> None)) \<and>
        root_subject s' r \<noteq> Inl IndexError \<and> root_subject s' r \<noteq> Inl AttributeError)"
proof -
  let ?hm = "\<lambda>x. \<not> is_dummy s x"
  from prune_root_result[OF assms]
  obtain t s' where t: "croot t = c" "tree_at s t" "distinct (cids t)"
    and run: "prune_container n s c = Some (Inr (map croot (fprune ?hm False t), s'))"
    and post: "prune_post s s' (cids t) (fprune ?hm False t)"
    and roots: "\<forall>r \<in> set (fprune ?hm False t). parent (s' ! croot r) = None"
    by blast
  from post have msg: "\<forall>x. message (s' ! x) = message (s ! x)"
    and trees: "\<forall>r \<in> set (fprune ?hm False t). tree_at s' r"
    by (auto simp: prune_post_def)
  have hm: "?hm x \<longleftrightarrow> message (s' ! x) \<noteq> None" for x
    using msg by (simp add: is_dummy_def)
  have each: "parent (s' ! croot r) = None \<and>
        (\<forall>x. (croot r, x) \<in> (child_rel s')\<^sup>+ \<longrightarrow>
             parent (s' ! x) \<noteq> None \<and> message (s' ! x) \<noteq> None) \<and>
        (message (s' ! croot r) = None \<longrightarrow>
           2 \<le> length (children (s' ! croot r)) \<and>
           (\<forall>k \<in> set (children (s' ! croot r)). message (s' ! k) \<noteq> None)) \<and>
        root_subject s' (croot r) \<noteq> Inl IndexError \<and>
        root_subject s' (croot r) \<noteq> Inl AttributeError"
    if r: "r \<in> set (fprune ?hm False t)" for r
  proof -
    obtain c' ks where rk: "r = CNode c' ks" by (cases r)
    have tr: "tree_at s' r" using trees r by blast
    have dr: "distinct (cids r)"
      using fprune_distinct[OF t(3), of ?hm False] r by (auto simp: distinct_concat_iff)
    have sub: "\<forall>x \<in> set (concat (map cids ks)). ?hm x"
    proof
      fix x assume x: "x \<in> set (concat (map cids ks))"
      from fprune_False_shape[OF r] rk x show "?hm x" by auto
    qed
    have desc: "parent (s' ! x) \<noteq> None \<and> message (s' ! x) \<noteq> None"
      if "(croot r, x) \<in> (child_rel s')\<^sup>+" for x
    proof -
      from tree_reach_proper[of s' c' ks x] tr rk that
      have x: "x \<in> set (concat (map cids ks))" by simp
      then have "x \<in> set (cids r)" "x \<noteq> croot r"
        using rk dr by auto
      from tree_at_parent[OF tr this] sub x hm show ?thesis by blast
    qed
    have kids: "children (s' ! croot r) = map croot ks"
      using tr rk by simp
    have kmsg: "\<forall>k \<in> set (children (s' ! croot r)). message (s' ! k) \<noteq> None"
    proof
      fix k assume "k \<in> set (children (s' ! croot r))"
      with kids obtain k' where "k' \<in> set ks" "k = croot k'" by auto
      then have "k \<in> set (concat (map cids ks))"
        using croot_in_cids[of k'] by auto
      with sub hm show "message (s' ! k) \<noteq> None" by blast
    qed
    have dummy: "2 \<le> length (children (s' ! croot r))" if "message (s' ! croot r) = None"
    proof -
      from that hm have "\<not> ?hm (croot r)" by blast
      with fprune_False_shape[OF r] croot_in_cids[of r]
      obtain ks' where "r = CNode (croot r) ks'" "2 \<le> length ks'" by blast
      with rk kids show ?thesis by simp
    qed
    have subj: "root_subject s' (croot r) \<noteq> Inl IndexError \<and>
        root_subject s' (croot r) \<noteq> Inl AttributeError"
    proof (cases "message (s' ! croot r)")
      case (Some m)
      then show ?thesis
        by (simp add: root_subject_def normalise_def split: option.splits)
    next
      case None
      from dummy[OF None] obtain k rest where kr: "children (s' ! croot r) = k # rest"
        by (cases "children (s' ! croot r)") auto
      with kmsg obtain m where "message (s' ! k) = Some m" by auto
      with None kr show ?thesis
        by (simp add: root_subject_def normalise_def split: option.splits)
    qed
    from roots r desc dummy kmsg subj show ?thesis by blast
  qed
  show ?thesis
  proof (intro exI conjI)
    show "prune_container n s c = Some (Inr (map croot (fprune ?hm False t), s'))"
      by (rule run)
    show "\<forall>r \<in> set (map croot (fprune ?hm False t)).
        parent (s' ! r) = None \<and>
        (\<forall>x. (r, x) \<in> (child_rel s')\<^sup>+ \<longrightarrow>
             parent (s' ! x) \<noteq> None \<and> message (s' ! x) \<noteq> None) \<and>
        (message (s' ! r) = None \<longrightarrow>
           2 \<le> length (children (s' ! r)) \<and>
           (\<forall>k \<in> set (children (s' ! r)). message (s' ! k) \<noteq> None)) \<and>
        root_subject s' r \<noteq> Inl IndexError \<and> root_subject s' r \<noteq> Inl AttributeError"
    proof
      fix q assume "q \<in> set (map croot (fprune ?hm False t))"
      then obtain r where "r \<in> set (fprune ?hm False t)" "q = croot r" by auto
      with each[OF this(1)] show "parent (s' ! q) = None \<and>
        (\<forall>x. (q, x) \<in> (child_rel s')\<^sup>+ \<longrightarrow>
             parent (s' ! x) \<noteq> None \<and> message (s' ! x) \<noteq> None) \<and>
        (message (s' ! q) = None \<longrightarrow>
           2 \<le> length (children (s' ! q)) \<and>
           (\<forall>k \<in> set (children (s' ! q)). message (s' ! k) \<noteq> None)) \<and>
        root_subject s' q \<noteq> Inl IndexError \<and> root_subject s' q \<noteq> Inl AttributeError"
        by simp
    qed
  qed
qed

theorem pruned_root_shape_witness:
  "wf_store nested_store \<and> 0 < length nested_store \<and> parent (nested_store ! 0) = None \<and>
   length nested_store \<le> 4 \<and>
   prune_container 4 nested_store 0 = Some (Inr ([0], nested_pruned)) \<and>
   parent (nested_pruned ! 0) = None \<and>
   (0, 2) \<in> (child_rel nested_pruned)\<^sup>+ \<and>
   message (nested_pruned ! 2) \<noteq> None \<and> parent (nested_pruned ! 2) \<noteq> None \<and>
   root_subject nested_pruned 0 \<noteq> Inl IndexError"
proof -
  from pruned_root_shape[OF wf_nested_store root_nested_store]
  obtain roots s' where run: "prune_container 4 nested_store 0 = Some (Inr (roots, s'))"
    and shape: "\<forall>r \<in> set roots.
        parent (s' ! r) = None \<and>
        (\<forall>x. (r, x) \<in> (child_rel s')\<^sup>+ \<longrightarrow>
             parent (s' ! x) \<noteq> None \<and> message (s' ! x) \<noteq> None) \<and>
        (message (s' ! r) = None \<longrightarrow>
           2 \<le> length (children (s' ! r)) \<and>
           (\<forall>k \<in> set (children (s' ! r)). message (s' ! k) \<noteq> None)) \<and>
        root_subject s' r \<noteq> Inl IndexError \<and> root_subject s' r \<noteq> Inl AttributeError"
    by blast
  from run[unfolded prune_nested_store] have eq: "roots = [0]" "s' = nested_pruned"
    by simp_all
  have edge: "(0, 2) \<in> (child_rel nested_pruned)\<^sup>+"
    by (rule r_into_trancl) (simp add: child_rel_def nested_pruned_def)
  from shape eq have r0: "parent (nested_pruned ! 0) = None \<and>
        (\<forall>x. (0, x) \<in> (child_rel nested_pruned)\<^sup>+ \<longrightarrow>
             parent (nested_pruned ! x) \<noteq> None \<and> message (nested_pruned ! x) \<noteq> None) \<and>
        root_subject nested_pruned 0 \<noteq> Inl IndexError"
    by simp
  with edge have "parent (nested_pruned ! 2) \<noteq> None \<and> message (nested_pruned ! 2) \<noteq> None"
    by blast
  with r0 edge wf_nested_store root_nested_store prune_nested_store show ?thesis
    by blast
qed

lemma store_eqI:
  assumes "length s' = length s"
    "\<forall>x. message (s' ! x) = message (s ! x)"
    "\<forall>x < length s. children (s' ! x) = children (s ! x)"
    "\<forall>x < length s. parent (s' ! x) = parent (s ! x)"
  shows "s' = (s :: store)"
proof (rule nth_equalityI)
  show "length s' = length s" by (rule assms(1))
  fix i assume "i < length s'"
  with assms show "s' ! i = s ! i"
    by (intro Container.equality) simp_all
qed

section \<open>Pruning twice\<close>

text \<open>
  C7. Let the store be well formed and \<open>c\<close> a container with no parent. If
  \<open>prune_container\<close> on \<open>c\<close> returns the list \<open>[c]\<close> and the store \<open>s'\<close>, then
  \<open>prune_container\<close> on \<open>c\<close> in \<open>s'\<close>, with fuel for the whole store, returns
  \<open>[c]\<close> again and the very same store: every container has the message, the parent
  and the children, in the same order, that it had after the first pruning.
\<close>

theorem prune_idempotent:
  assumes "wf_store s" "c < length s" "parent (s ! c) = None"
    and "prune_container n s c = Some (Inr ([c], s'))" and "length s \<le> m"
  shows "prune_container m s' c = Some (Inr ([c], s'))"
proof -
  let ?hm = "\<lambda>x. \<not> is_dummy s x"
  let ?N = "max n (length s)"
  have "length s \<le> ?N" by simp
  from prune_root_result[OF assms(1-3) this]
  obtain t s1 where t: "croot t = c" "tree_at s t" "distinct (cids t)"
    and run: "prune_container ?N s c = Some (Inr (map croot (fprune ?hm False t), s1))"
    and post: "prune_post s s1 (cids t) (fprune ?hm False t)"
    and roots: "\<forall>r \<in> set (fprune ?hm False t). parent (s1 ! croot r) = None"
    by blast
  have "prune_container ?N s c = Some (Inr ([c], s'))"
    using prune_fuel_mono(1)[of n s c] assms(4) by simp
  with run have res: "map croot (fprune ?hm False t) = [c]" and s1: "s1 = s'"
    by simp_all
  then obtain r where r: "fprune ?hm False t = [r]" "croot r = c"
    by (cases "fprune ?hm False t") auto
  from post s1 r have len: "length s' = length s"
    and msg: "\<forall>x. message (s' ! x) = message (s ! x)"
    and tr: "tree_at s' r"
    by (auto simp: prune_post_def)
  have dr: "distinct (cids r)"
    using fprune_distinct[OF t(3), of ?hm False] r by simp
  have pr: "parent (s' ! c) = None"
    using roots r s1 by simp
  have hm': "(\<lambda>x. \<not> is_dummy s' x) = ?hm"
    using msg by (simp add: is_dummy_def)
  have idem: "fprune (\<lambda>x. \<not> is_dummy s' x) (parent (s' ! croot r) \<noteq> None) r = [r]"
    unfolding hm' using fprune_idem[of r ?hm t] r pr by simp
  have "height r \<le> m"
    using tree_height_bound[OF tr dr] len assms(5) by simp
  from prune_tree[OF tr dr this]
  obtain s2 where run2: "prune_container m s' c = Some (Inr ([c], s2))"
    and post2: "prune_post s' s2 (cids r) [r]"
    and pc2: "parent (s2 ! c) = parent (s' ! c)"
    unfolding prunes_to_def idem using r(2) by auto
  from post2 have len2: "length s2 = length s'"
    and msg2: "\<forall>x. message (s2 ! x) = message (s' ! x)"
    and frame2: "\<forall>x. x \<notin> set (cids r) \<longrightarrow>
        children (s2 ! x) = children (s' ! x) \<and> parent (s2 ! x) = parent (s' ! x)"
    and tr2: "tree_at s2 r"
    by (auto simp: prune_post_def)
  have "s2 = s'"
  proof (rule store_eqI[OF len2 msg2])
    show "\<forall>x < length s'. children (s2 ! x) = children (s' ! x)"
      using frame2 tree_at_fields[OF tr2 tr dr] by blast
    show "\<forall>x < length s'. parent (s2 ! x) = parent (s' ! x)"
    proof (intro allI impI)
      fix x assume "x < length s'"
      show "parent (s2 ! x) = parent (s' ! x)"
      proof (cases "x \<in> set (cids r)")
        case False
        with frame2 show ?thesis by simp
      next
        case True
        show ?thesis
        proof (cases "x = c")
          case True
          with pc2 show ?thesis by simp
        next
          case False
          with tree_at_fields[OF tr2 tr dr True] r(2) show ?thesis by simp
        qed
      qed
    qed
  qed
  with run2 show ?thesis by simp
qed

theorem prune_idempotent_witness:
  "wf_store nested_store \<and> 0 < length nested_store \<and> parent (nested_store ! 0) = None \<and>
   prune_container 4 nested_store 0 = Some (Inr ([0], nested_pruned)) \<and>
   length nested_store \<le> 4 \<and> nested_pruned \<noteq> nested_store \<and>
   prune_container 4 nested_pruned 0 = Some (Inr ([0], nested_pruned))"
proof -
  have "prune_container 4 nested_pruned 0 = Some (Inr ([0], nested_pruned))"
    by (rule prune_idempotent[OF wf_nested_store root_nested_store(1,2) prune_nested_store
          root_nested_store(3)])
  moreover have "nested_pruned \<noteq> nested_store"
    by (simp add: nested_pruned_def nested_store_def)
  ultimately show ?thesis
    using wf_nested_store root_nested_store prune_nested_store by blast
qed

section \<open>Well-formedness under the tree operations\<close>

text \<open>
  \<open>remove_child\<close> on a child of the container and \<open>add_child\<close> on any two
  containers of a well-formed store succeed and keep the store well formed; so do
  allocating a container and storing a message.
\<close>

lemma wf_storeI:
  assumes "\<And>c. c < length s \<Longrightarrow> distinct (children (s ! c))"
    and "\<And>c k. c < length s \<Longrightarrow> k \<in> set (children (s ! c)) \<Longrightarrow>
           k < length s \<and> parent (s ! k) = Some c"
    and "\<And>c p. c < length s \<Longrightarrow> parent (s ! c) = Some p \<Longrightarrow>
           p < length s \<and> c \<in> set (children (s ! p))"
  shows "wf_store s"
  unfolding wf_store_iff using assms by blast

lemma wf_store_fields:
  assumes "wf_store s" "length s' = length s"
    "\<forall>x < length s. children (s' ! x) = children (s ! x) \<and> parent (s' ! x) = parent (s ! x)"
  shows "wf_store s'"
proof (rule wf_storeI)
  fix c assume c: "c < length s'"
  with assms(2) have c': "c < length s" by simp
  show "distinct (children (s' ! c))"
    using wf_storeD(1)[OF assms(1) c'] assms(3) c' by simp
  fix k assume "k \<in> set (children (s' ! c))"
  then have "k \<in> set (children (s ! c))" using assms(3) c' by simp
  from wf_storeD(2)[OF assms(1) c' this] assms(2,3)
  show "k < length s' \<and> parent (s' ! k) = Some c" by simp
next
  fix c p assume c: "c < length s'" and "parent (s' ! c) = Some p"
  with assms(2,3) have c': "c < length s" and "parent (s ! c) = Some p" by simp_all
  from wf_storeD(3)[OF assms(1) this] assms(2,3)
  show "p < length s' \<and> c \<in> set (children (s' ! p))" by simp
qed

lemma wf_set_message:
  assumes "wf_store s"
  shows "wf_store (s[c := (s ! c)\<lparr>message := m\<rparr>])"
proof (rule wf_store_fields[OF assms])
  show "length (s[c := (s ! c)\<lparr>message := m\<rparr>]) = length s" by simp
  show "\<forall>x < length s. children (s[c := (s ! c)\<lparr>message := m\<rparr>] ! x) = children (s ! x) \<and>
      parent (s[c := (s ! c)\<lparr>message := m\<rparr>] ! x) = parent (s ! x)"
    by (cases "c < length s") (auto simp: nth_list_update list_update_beyond)
qed

lemma wf_alloc:
  assumes "wf_store s"
  shows "wf_store (s @ [Container_init])"
proof (rule wf_storeI)
  fix c assume c: "c < length (s @ [Container_init])"
  show "distinct (children ((s @ [Container_init]) ! c))"
  proof (cases "c < length s")
    case True
    with wf_storeD(1)[OF assms True] show ?thesis by (simp add: nth_append)
  next
    case False
    with c have "c = length s" by simp
    then show ?thesis by (simp add: Container_init_def)
  qed
  fix k assume k: "k \<in> set (children ((s @ [Container_init]) ! c))"
  have c': "c < length s"
  proof (rule ccontr)
    assume "\<not> c < length s"
    with c have "c = length s" by simp
    with k show False by (simp add: Container_init_def)
  qed
  with k have "k \<in> set (children (s ! c))" by (simp add: nth_append)
  from wf_storeD(2)[OF assms c' this]
  show "k < length (s @ [Container_init]) \<and> parent ((s @ [Container_init]) ! k) = Some c"
    by (simp add: nth_append)
next
  fix c p assume c: "c < length (s @ [Container_init])"
    and p: "parent ((s @ [Container_init]) ! c) = Some p"
  have c': "c < length s"
  proof (rule ccontr)
    assume "\<not> c < length s"
    with c have "c = length s" by simp
    with p show False by (simp add: Container_init_def)
  qed
  with p have "parent (s ! c) = Some p" by (simp add: nth_append)
  from wf_storeD(3)[OF assms c' this]
  show "p < length (s @ [Container_init]) \<and> c \<in> set (children ((s @ [Container_init]) ! p))"
    by (simp add: nth_append)
qed

lemma remove_child_wf:
  assumes wf: "wf_store s" and self: "self < length s"
    and mem: "child \<in> set (children (s ! self))"
  shows "\<exists>s'. remove_child s self child = Inr s' \<and> wf_store s' \<and> length s' = length s \<and>
     (\<forall>x. message (s' ! x) = message (s ! x)) \<and>
     (\<forall>x. children (s' ! x) =
        (if x = self then remove1 child (children (s ! self)) else children (s ! x))) \<and>
     (\<forall>x. parent (s' ! x) = (if x = child then None else parent (s ! x)))"
proof -
  have cv: "child < length s" and cp: "parent (s ! child) = Some self"
    using wf_storeD(2)[OF wf self mem] by simp_all
  from remove_child_effect[OF mem self cv]
  obtain s' where run: "remove_child s self child = Inr s'" and len: "length s' = length s"
    and msg: "\<forall>x. message (s' ! x) = message (s ! x)"
    and kids: "\<forall>x. children (s' ! x) =
        (if x = self then remove1 child (children (s ! self)) else children (s ! x))"
    and par: "\<forall>x. parent (s' ! x) = (if x = child then None else parent (s ! x))"
    by blast
  have dself: "distinct (children (s ! self))"
    by (rule wf_storeD(1)[OF wf self])
  have sub: "k \<in> set (children (s ! c)) \<and> k \<noteq> child"
    if "c < length s" "k \<in> set (children (s' ! c))" for c k
  proof (cases "c = self")
    case True
    with that(2) kids have "k \<in> set (remove1 child (children (s ! self)))" by simp
    with dself True show ?thesis by simp
  next
    case False
    with that(2) kids have k: "k \<in> set (children (s ! c))" by simp
    have "k \<noteq> child"
    proof
      assume "k = child"
      with wf_storeD(2)[OF wf that(1) k] cp False show False by simp
    qed
    with k show ?thesis by simp
  qed
  have "wf_store s'"
  proof (rule wf_storeI)
    fix c assume "c < length s'"
    with len have c: "c < length s" by simp
    show "distinct (children (s' ! c))"
      using kids wf_storeD(1)[OF wf c] dself by simp
    fix k assume "k \<in> set (children (s' ! c))"
    from sub[OF c this] have k: "k \<in> set (children (s ! c))" "k \<noteq> child" by simp_all
    from wf_storeD(2)[OF wf c k(1)] k(2) par len
    show "k < length s' \<and> parent (s' ! k) = Some c" by simp
  next
    fix c p assume "c < length s'" and p': "parent (s' ! c) = Some p"
    with len have c: "c < length s" by simp
    from p' par have ne: "c \<noteq> child" and p: "parent (s ! c) = Some p"
      by (auto split: if_splits)
    from wf_storeD(3)[OF wf c p] have pv: "p < length s" and cin: "c \<in> set (children (s ! p))"
      by simp_all
    have "c \<in> set (children (s' ! p))"
    proof (cases "p = self")
      case True
      with cin ne dself kids show ?thesis by simp
    next
      case False
      with cin kids show ?thesis by simp
    qed
    with pv len show "p < length s' \<and> c \<in> set (children (s' ! p))" by simp
  qed
  with run len msg kids par show ?thesis by blast
qed

lemma add_child_after_remove:
  assumes "parent (s ! child) = Some p" "remove_child s p child = Inr s1"
    "parent (s1 ! child) = None"
  shows "add_child s self child = add_child s1 self child"
  using assms by (simp add: add_child_def)

lemma add_child_wf_root:
  assumes wf: "wf_store s" and self: "self < length s" and cv: "child < length s"
    and pn: "parent (s ! child) = None"
  shows "\<exists>s'. add_child s self child = Inr s' \<and> wf_store s' \<and> length s' = length s \<and>
     (\<forall>x. message (s' ! x) = message (s ! x)) \<and>
     (\<forall>x. children (s' ! x) =
        (if x = self then children (s ! self) @ [child] else children (s ! x))) \<and>
     (\<forall>x. parent (s' ! x) = (if x = child then Some self else parent (s ! x)))"
proof -
  from add_child_effect[OF pn self cv]
  obtain s' where run: "add_child s self child = Inr s'" and len: "length s' = length s"
    and msg: "\<forall>x. message (s' ! x) = message (s ! x)"
    and kids: "\<forall>x. children (s' ! x) =
        (if x = self then children (s ! self) @ [child] else children (s ! x))"
    and par: "\<forall>x. parent (s' ! x) = (if x = child then Some self else parent (s ! x))"
    by blast
  have nowhere: "child \<notin> set (children (s ! y))" if "y < length s" for y
  proof
    assume "child \<in> set (children (s ! y))"
    from wf_storeD(2)[OF wf that this] pn show False by simp
  qed
  have "wf_store s'"
  proof (rule wf_storeI)
    fix c assume "c < length s'"
    with len have c: "c < length s" by simp
    show "distinct (children (s' ! c))"
      using kids wf_storeD(1)[OF wf c] nowhere[OF c] by auto
    fix k assume k: "k \<in> set (children (s' ! c))"
    show "k < length s' \<and> parent (s' ! k) = Some c"
    proof (cases "k = child")
      case True
      with k kids nowhere[OF c] have "c = self"
        by (auto split: if_splits)
      with True par cv len show ?thesis by simp
    next
      case False
      with k kids have "k \<in> set (children (s ! c))"
        by (auto split: if_splits)
      from wf_storeD(2)[OF wf c this] False par len show ?thesis by simp
    qed
  next
    fix c p assume "c < length s'" and p': "parent (s' ! c) = Some p"
    with len have c: "c < length s" by simp
    show "p < length s' \<and> c \<in> set (children (s' ! p))"
    proof (cases "c = child")
      case True
      with p' par have "p = self" by simp
      with True kids self len show ?thesis by simp
    next
      case False
      with p' par have "parent (s ! c) = Some p" by simp
      from wf_storeD(3)[OF wf c this] kids len show ?thesis by auto
    qed
  qed
  with run len msg kids par show ?thesis by blast
qed

lemma remove1_not_child:
  assumes wf: "wf_store s" and "y < length s" and "parent (s ! child) \<noteq> Some y"
  shows "remove1 child (children (s ! y)) = children (s ! y)"
proof -
  have "child \<notin> set (children (s ! y))"
  proof
    assume "child \<in> set (children (s ! y))"
    from wf_storeD(2)[OF wf assms(2) this] assms(3) show False by simp
  qed
  then show ?thesis by (simp add: remove1_idem)
qed

lemma add_child_wf:
  assumes wf: "wf_store s" and self: "self < length s" and cv: "child < length s"
  shows "\<exists>s'. add_child s self child = Inr s' \<and> wf_store s' \<and> length s' = length s \<and>
     (\<forall>x. message (s' ! x) = message (s ! x)) \<and>
     (\<forall>x < length s. children (s' ! x) =
        remove1 child (children (s ! x)) @ (if x = self then [child] else [])) \<and>
     (\<forall>x. parent (s' ! x) = (if x = child then Some self else parent (s ! x)))"
proof (cases "parent (s ! child)")
  case None
  from add_child_wf_root[OF wf self cv None]
  obtain s' where run: "add_child s self child = Inr s'" and wf': "wf_store s'"
    and len: "length s' = length s"
    and msg: "\<forall>x. message (s' ! x) = message (s ! x)"
    and kids: "\<forall>x. children (s' ! x) =
        (if x = self then children (s ! self) @ [child] else children (s ! x))"
    and par: "\<forall>x. parent (s' ! x) = (if x = child then Some self else parent (s ! x))"
    by blast
  have "\<forall>x < length s. children (s' ! x) =
        remove1 child (children (s ! x)) @ (if x = self then [child] else [])"
    using kids remove1_not_child[OF wf, of _ child] None by simp
  with run wf' len msg par show ?thesis by blast
next
  case (Some p)
  from wf_storeD(3)[OF wf cv Some] have pv: "p < length s"
    and mem: "child \<in> set (children (s ! p))" by simp_all
  from remove_child_wf[OF wf pv mem]
  obtain s1 where rm: "remove_child s p child = Inr s1" and wf1: "wf_store s1"
    and len1: "length s1 = length s"
    and msg1: "\<forall>x. message (s1 ! x) = message (s ! x)"
    and kids1: "\<forall>x. children (s1 ! x) =
        (if x = p then remove1 child (children (s ! p)) else children (s ! x))"
    and par1: "\<forall>x. parent (s1 ! x) = (if x = child then None else parent (s ! x))"
    by blast
  have pn1: "parent (s1 ! child) = None" using par1 by simp
  have self1: "self < length s1" and cv1: "child < length s1"
    using self cv len1 by simp_all
  from add_child_wf_root[OF wf1 self1 cv1 pn1]
  obtain s' where run1: "add_child s1 self child = Inr s'" and wf': "wf_store s'"
    and len: "length s' = length s1"
    and msg: "\<forall>x. message (s' ! x) = message (s1 ! x)"
    and kids: "\<forall>x. children (s' ! x) =
        (if x = self then children (s1 ! self) @ [child] else children (s1 ! x))"
    and par: "\<forall>x. parent (s' ! x) = (if x = child then Some self else parent (s1 ! x))"
    by blast
  have run: "add_child s self child = Inr s'"
    using add_child_after_remove[OF Some rm pn1] run1 by simp
  have k1: "children (s1 ! x) = remove1 child (children (s ! x))" if "x < length s" for x
  proof (cases "x = p")
    case True
    with kids1 show ?thesis by simp
  next
    case False
    with Some have "parent (s ! child) \<noteq> Some x" by simp
    from remove1_not_child[OF wf that this] kids1 False show ?thesis by simp
  qed
  have "\<forall>x < length s. children (s' ! x) =
        remove1 child (children (s ! x)) @ (if x = self then [child] else [])"
    using kids k1 self by simp
  moreover have "\<forall>x. parent (s' ! x) = (if x = child then Some self else parent (s ! x))"
    using par par1 by simp
  moreover have "\<forall>x. message (s' ! x) = message (s ! x)"
    using msg msg1 by simp
  ultimately show ?thesis
    using run wf' len len1 by auto
qed

section \<open>The linker\<close>

text \<open>
  Step one raises nothing: on a well-formed store whose id table holds pairwise distinct
  containers of the store, every step of \<open>link_messages\<close> returns, and the store and
  the table stay that way. A property of the messages stored so far is kept as well.
\<close>

definition table_ok :: "('k \<times> cid) list \<Rightarrow> store \<Rightarrow> bool" where
  "table_ok tbl s = (wf_store s \<and> (\<forall>c \<in> set (map snd tbl). c < length s) \<and> distinct (map snd tbl))"

definition messages_ok :: "(Message \<Rightarrow> bool) \<Rightarrow> store \<Rightarrow> bool" where
  "messages_ok P s = (\<forall>x < length s. \<forall>m. message (s ! x) = Some m \<longrightarrow> P m)"

definition subjects_ok :: "store \<Rightarrow> bool" where
  "subjects_ok s = (\<forall>x < length s. \<forall>m. message (s ! x) = Some m \<longrightarrow> subject m \<noteq> None)"

lemma update_absent: "map_of tbl k = None \<Longrightarrow> AList.update k v tbl = tbl @ [(k, v)]"
  by (induction tbl) (auto split: if_splits)

lemma map_of_value: "map_of tbl k = Some v \<Longrightarrow> v \<in> set (map snd tbl)"
  by (force dest: map_of_SomeD)

lemma messages_ok_fields:
  assumes "messages_ok P s" "length s' = length s" "\<forall>x. message (s' ! x) = message (s ! x)"
  shows "messages_ok P s'"
  using assms by (simp add: messages_ok_def)

lemma attach_message_ok:
  assumes ok: "table_ok tbl s" and sub: "messages_ok P s" and m: "P msg"
    and run: "attach_message tbl s msg = (this, tbl', s')"
  shows "table_ok tbl' s' \<and> messages_ok P s' \<and> this < length s' \<and> length s \<le> length s'"
proof (cases "map_of tbl (message_id msg)")
  case (Some c)
  with run have eq: "this = c" "tbl' = tbl" "s' = s[c := (s ! c)\<lparr>message := Some msg\<rparr>]"
    by (auto simp: attach_message_def)
  have cv: "c < length s"
    using ok map_of_value[OF Some] by (auto simp: table_ok_def)
  have "wf_store s'"
    unfolding eq using ok by (intro wf_set_message) (simp add: table_ok_def)
  moreover have "messages_ok P s'"
    unfolding messages_ok_def eq using sub m cv
    by (auto simp: messages_ok_def nth_list_update)
  ultimately show ?thesis
    using ok eq cv by (simp add: table_ok_def)
next
  case None
  let ?c = "length s"
  let ?s1 = "s @ [Container_init]"
  from None run have eq: "this = ?c" "tbl' = tbl @ [(message_id msg, ?c)]"
    "s' = ?s1[?c := (?s1 ! ?c)\<lparr>message := Some msg\<rparr>]"
    by (auto simp: attach_message_def alloc_def update_absent)
  have "wf_store s'"
    unfolding eq using ok by (intro wf_set_message wf_alloc) (simp add: table_ok_def)
  moreover have "messages_ok P s'"
    unfolding messages_ok_def eq using sub m
    by (auto simp: messages_ok_def nth_list_update nth_append)
  moreover have "\<forall>c \<in> set (map snd tbl'). c < length s'"
    using ok eq by (auto simp: table_ok_def)
  moreover have "distinct (map snd tbl')"
    using ok eq by (auto simp: table_ok_def)
  ultimately show ?thesis
    using eq by (simp add: table_ok_def)
qed

lemma lookup_or_create_ok:
  assumes ok: "table_ok tbl s" and sub: "messages_ok P s"
    and run: "lookup_or_create tbl s ref = (container, tbl', s')"
  shows "table_ok tbl' s' \<and> messages_ok P s' \<and> container < length s' \<and> length s \<le> length s'"
proof (cases "map_of tbl (Some ref)")
  case (Some c)
  with run have eq: "container = c" "tbl' = tbl" "s' = s"
    by (auto simp: lookup_or_create_def)
  have "c < length s"
    using ok map_of_value[OF Some] by (auto simp: table_ok_def)
  with ok sub eq show ?thesis by simp
next
  case None
  with run have eq: "container = length s" "tbl' = tbl @ [(Some ref, length s)]"
    "s' = s @ [Container_init]"
    by (auto simp: lookup_or_create_def alloc_def update_absent)
  have "wf_store s'"
    unfolding eq using ok by (intro wf_alloc) (simp add: table_ok_def)
  moreover have "messages_ok P s'"
    unfolding messages_ok_def eq using sub
    by (auto simp: messages_ok_def nth_append Container_init_def)
  moreover have "\<forall>c \<in> set (map snd tbl'). c < length s'"
    using ok eq by (auto simp: table_ok_def)
  moreover have "distinct (map snd tbl')"
    using ok eq by (auto simp: table_ok_def)
  ultimately show ?thesis
    using eq by (simp add: table_ok_def)
qed

lemma link_reference_ok:
  assumes wf: "wf_store s" and cv: "container < length s"
    and pv: "\<forall>p. prev = Some p \<longrightarrow> p < length s"
  shows "\<exists>s'. link_reference s this prev container = Inr s' \<and> wf_store s' \<and>
      length s' = length s \<and> (\<forall>x. message (s' ! x) = message (s ! x))"
proof (cases prev)
  case None
  with wf show ?thesis by (simp add: link_reference_def)
next
  case (Some p)
  with pv have p: "p < length s" by simp
  show ?thesis
  proof (cases "parent (s ! container) \<noteq> None \<or> container = this \<or>
      has_descendant s container p \<or> has_descendant s p container")
    case True
    with Some wf show ?thesis by (auto simp: link_reference_def)
  next
    case False
    with Some have "link_reference s this prev container = add_child s p container"
      by (auto simp: link_reference_def)
    with add_child_wf[OF wf p cv] show ?thesis by auto
  qed
qed

lemma link_references_ok:
  assumes "table_ok tbl s" "messages_ok P s" "\<forall>p. prev = Some p \<longrightarrow> p < length s"
  shows "\<exists>tbl' s' prev'. link_references tbl s this prev refs = Inr (tbl', s', prev') \<and>
      table_ok tbl' s' \<and> messages_ok P s' \<and> (\<forall>p. prev' = Some p \<longrightarrow> p < length s') \<and>
      length s \<le> length s'"
  using assms
proof (induction refs arbitrary: tbl s prev)
  case Nil
  then show ?case by simp
next
  case (Cons ref refs)
  obtain container tbl1 s1 where look: "lookup_or_create tbl s ref = (container, tbl1, s1)"
    by (cases "lookup_or_create tbl s ref") auto
  from lookup_or_create_ok[OF Cons.prems(1,2) look]
  have ok1: "table_ok tbl1 s1" and sub1: "messages_ok P s1" and cv: "container < length s1"
    and le1: "length s \<le> length s1" by simp_all
  have pv1: "\<forall>p. prev = Some p \<longrightarrow> p < length s1"
    using Cons.prems(3) le1 by auto
  from ok1 have wf1: "wf_store s1" by (simp add: table_ok_def)
  from link_reference_ok[OF wf1 cv pv1, of this]
  obtain s2 where link: "link_reference s1 this prev container = Inr s2"
    and wf2: "wf_store s2" and len2: "length s2 = length s1"
    and msg2: "\<forall>x. message (s2 ! x) = message (s1 ! x)"
    by blast
  have ok2: "table_ok tbl1 s2"
    using ok1 wf2 len2 by (simp add: table_ok_def)
  have sub2: "messages_ok P s2"
    by (rule messages_ok_fields[OF sub1 len2 msg2])
  have pv2: "\<forall>p. Some container = Some p \<longrightarrow> p < length s2"
    using cv len2 by simp
  from Cons.IH[OF ok2 sub2 pv2]
  obtain tbl' s' prev' where
    "link_references tbl1 s2 this (Some container) refs = Inr (tbl', s', prev')"
    "table_ok tbl' s'" "messages_ok P s'" "\<forall>p. prev' = Some p \<longrightarrow> p < length s'"
    "length s2 \<le> length s'"
    by blast
  with look link le1 len2 show ?case by auto
qed

lemma set_parent_ok:
  assumes wf: "wf_store s" and tv: "this < length s"
    and pv: "\<forall>p. prev = Some p \<longrightarrow> p < length s"
  shows "\<exists>s'. set_parent s this prev = Inr s' \<and> wf_store s' \<and>
      length s' = length s \<and> (\<forall>x. message (s' ! x) = message (s ! x))"
proof (cases prev)
  case (Some p)
  with pv have p: "p < length s" by simp
  from add_child_wf[OF wf p tv] Some show ?thesis
    by (auto simp: set_parent_def)
next
  case None
  show ?thesis
  proof (cases "parent (s ! this)")
    case n: None
    with None wf show ?thesis by (simp add: set_parent_def)
  next
    case (Some q)
    from wf_storeD(3)[OF wf tv Some] have "q < length s" "this \<in> set (children (s ! q))"
      by simp_all
    from remove_child_wf[OF wf this] None Some show ?thesis
      by (auto simp: set_parent_def)
  qed
qed

lemma link_message_ok:
  assumes ok: "table_ok tbl s" and sub: "messages_ok P s" and m: "P msg"
  shows "\<exists>tbl' s'. link_message tbl s msg = Inr (tbl', s') \<and> table_ok tbl' s' \<and> messages_ok P s'"
proof -
  obtain this tbl1 s1 where att: "attach_message tbl s msg = (this, tbl1, s1)"
    by (cases "attach_message tbl s msg") auto
  from attach_message_ok[OF ok sub m att]
  have ok1: "table_ok tbl1 s1" and sub1: "messages_ok P s1" and tv: "this < length s1"
    by simp_all
  from link_references_ok[OF ok1 sub1, of None this "references msg"]
  obtain tbl2 s2 prev where
    refs: "link_references tbl1 s1 this None (references msg) = Inr (tbl2, s2, prev)"
    and ok2: "table_ok tbl2 s2" and sub2: "messages_ok P s2"
    and pv: "\<forall>p. prev = Some p \<longrightarrow> p < length s2" and le: "length s1 \<le> length s2"
    by auto
  from ok2 have wf2: "wf_store s2" by (simp add: table_ok_def)
  have tv2: "this < length s2" using tv le by simp
  from set_parent_ok[OF wf2 tv2 pv]
  obtain s3 where sp: "set_parent s2 this prev = Inr s3" and wf3: "wf_store s3"
    and len3: "length s3 = length s2" and msg3: "\<forall>x. message (s3 ! x) = message (s2 ! x)"
    by blast
  have "table_ok tbl2 s3" using ok2 wf3 len3 by (simp add: table_ok_def)
  moreover have "messages_ok P s3" by (rule messages_ok_fields[OF sub2 len3 msg3])
  moreover have "link_message tbl s msg = Inr (tbl2, s3)"
    using att refs sp by (simp add: link_message_def)
  ultimately show ?thesis by blast
qed

lemma link_messages_ok:
  assumes "table_ok tbl s" "messages_ok P s" "\<forall>m \<in> set msgs. P m"
  shows "\<exists>tbl' s'. link_messages tbl s msgs = Inr (tbl', s') \<and> table_ok tbl' s' \<and> messages_ok P s'"
  using assms
proof (induction msgs arbitrary: tbl s)
  case Nil
  then show ?case by simp
next
  case (Cons m msgs)
  from link_message_ok[OF Cons.prems(1,2), of m] Cons.prems(3)
  obtain tbl1 s1 where "link_message tbl s m = Inr (tbl1, s1)" "table_ok tbl1 s1" "messages_ok P s1"
    by auto
  with Cons.IH[of tbl1 s1] Cons.prems(3) show ?case by auto
qed

section \<open>Pruning the root set\<close>

text \<open>
  Pruning keeps a store well formed. On distinct roots of a well-formed store
  \<open>prune_root_set\<close> returns, once the fuel is the size of the store; the containers it
  returns are distinct, have no parent and either hold a message or have a first child
  that holds one.
\<close>

lemma add_children_wf:
  assumes "wf_store s" "self < length s" "\<forall>k \<in> set ks. k < length s"
    "add_children s self ks = Inr s'"
  shows "wf_store s' \<and> length s' = length s"
  using assms
proof (induction ks arbitrary: s)
  case Nil
  then show ?case by simp
next
  case (Cons k ks)
  from Cons.prems(3) have kv: "k < length s" by simp
  from add_child_wf[OF Cons.prems(1,2) kv]
  obtain s1 where s1: "add_child s self k = Inr s1" "wf_store s1" "length s1 = length s"
    by blast
  with Cons.prems(4) have run: "add_children s1 self ks = Inr s'" by simp
  from Cons.IH[OF s1(2) _ _ run] Cons.prems(2,3) s1(3) show ?case by simp
qed

lemma remove_children_wf:
  assumes "wf_store s" "self < length s" "remove_children s self ks = Inr s'"
  shows "wf_store s' \<and> length s' = length s"
  using assms
proof (induction ks arbitrary: s)
  case Nil
  then show ?case by simp
next
  case (Cons k ks)
  have mem: "k \<in> set (children (s ! self))"
  proof (rule ccontr)
    assume "k \<notin> set (children (s ! self))"
    with Cons.prems(3) show False by (simp add: remove_child_def)
  qed
  from remove_child_wf[OF Cons.prems(1,2) mem]
  obtain s1 where s1: "remove_child s self k = Inr s1" "wf_store s1" "length s1 = length s"
    by blast
  with Cons.prems(3) have run: "remove_children s1 self ks = Inr s'" by simp
  from Cons.IH[OF s1(2) _ run] Cons.prems(2) s1(3) show ?case by simp
qed

lemma prune_decide_wf:
  assumes wf: "wf_store s" and c: "c < length s" and run: "prune_decide s c = Inr (rs, s')"
  shows "wf_store s' \<and> length s' = length s \<and> (\<forall>r \<in> set rs. r < length s)"
proof -
  have kids: "\<forall>k \<in> set (children (s ! c)). k < length s"
    using wf_storeD(2)[OF wf c] by blast
  consider (empty) "rs = []" "s' = s"
    | (promote) "rs = children (s ! c)" "remove_children s c (children (s ! c)) = Inr s'"
    | (keep) "rs = [c]" "s' = s"
    using run by (auto simp: prune_decide_def split: if_splits sum.splits)
  then show ?thesis
  proof cases
    case empty
    with wf show ?thesis by simp
  next
    case promote
    from remove_children_wf[OF wf c promote(2)] promote(1) kids show ?thesis by simp
  next
    case keep
    with wf c show ?thesis by simp
  qed
qed

lemma prune_wf:
  "\<forall>rs s'. wf_store s \<longrightarrow> c < length s \<longrightarrow> prune_container n s c = Some (Inr (rs, s')) \<longrightarrow>
     wf_store s' \<and> length s' = length s \<and> (\<forall>r \<in> set rs. r < length s)"
  "\<forall>rs s'. wf_store s \<longrightarrow> c < length s \<longrightarrow> (\<forall>k \<in> set ks. k < length s) \<longrightarrow>
     (\<forall>k \<in> set acc. k < length s) \<longrightarrow>
     prune_children n s c ks acc = Some (Inr (rs, s')) \<longrightarrow>
     wf_store s' \<and> length s' = length s \<and> (\<forall>r \<in> set rs. r < length s)"
proof (induction n s c and n s c ks acc rule: prune_container_prune_children.induct)
  case (1 s container)
  show ?case by simp
next
  case (2 n s container)
  show ?case
  proof (intro allI impI)
    fix rs s'
    assume wf: "wf_store s" and c: "container < length s"
      and run: "prune_container (Suc n) s container = Some (Inr (rs, s'))"
    have kids: "\<forall>k \<in> set (children (s ! container)). k < length s"
      using wf_storeD(2)[OF wf c] by blast
    from run obtain new_children s1 s2 where
      r1: "prune_children n s container (children (s ! container)) [] = Some (Inr (new_children, s1))"
      and r2: "add_children s1 container new_children = Inr s2"
      and r3: "prune_decide s2 container = Inr (rs, s')"
      by (auto split: option.splits sum.splits)
    from 2 wf c kids r1
    have f1: "wf_store s1" "length s1 = length s" "\<forall>r \<in> set new_children. r < length s"
      by auto
    from add_children_wf[OF f1(1) _ _ r2] c f1(2,3)
    have f2: "wf_store s2" "length s2 = length s" by auto
    from prune_decide_wf[OF f2(1) _ r3] c f2(2)
    show "wf_store s' \<and> length s' = length s \<and> (\<forall>r \<in> set rs. r < length s)" by simp
  qed
next
  case (3 n s container new_children)
  show ?case by auto
next
  case (4 n s container ctr rest new_children)
  show ?case
  proof (intro allI impI)
    fix rs s'
    assume wf: "wf_store s" and c: "container < length s"
      and kv: "\<forall>k \<in> set (ctr # rest). k < length s"
      and av: "\<forall>k \<in> set new_children. k < length s"
      and run: "prune_children n s container (ctr # rest) new_children = Some (Inr (rs, s'))"
    from run obtain pruned_child s1 s2 where
      r1: "prune_container n s ctr = Some (Inr (pruned_child, s1))"
      and r2: "remove_child s1 container ctr = Inr s2"
      and r3: "prune_children n s2 container rest (new_children @ pruned_child) = Some (Inr (rs, s'))"
      by (auto split: option.splits sum.splits)
    from 4(1) wf kv r1
    have f1: "wf_store s1" "length s1 = length s" "\<forall>r \<in> set pruned_child. r < length s"
      by auto
    have mem: "ctr \<in> set (children (s1 ! container))"
    proof (rule ccontr)
      assume "ctr \<notin> set (children (s1 ! container))"
      with r2 show False by (simp add: remove_child_def)
    qed
    from remove_child_wf[OF f1(1) _ mem] c f1(2) r2
    have f2: "wf_store s2" "length s2 = length s" by auto
    from 4(2)[OF r1 refl refl r2] f2 c kv av f1(3) r3
    show "wf_store s' \<and> length s' = length s \<and> (\<forall>r \<in> set rs. r < length s)"
      by auto
  qed
qed


definition good_root :: "store \<Rightarrow> cid \<Rightarrow> bool" where
  "good_root s r =
     (message (s ! r) \<noteq> None \<or>
      (case children (s ! r) of [] \<Rightarrow> False | k # _ \<Rightarrow> message (s ! k) \<noteq> None))"

lemma reach_frame:
  assumes "\<forall>y. (r, y) \<in> (child_rel s)\<^sup>* \<longrightarrow> children (s1 ! y) = children (s ! y)"
    "length s1 = length s" "(r, x) \<in> (child_rel s1)\<^sup>*"
  shows "(r, x) \<in> (child_rel s)\<^sup>*"
  using assms(3)
proof (induction rule: rtrancl_induct)
  case base
  show ?case by simp
next
  case (step y z)
  from step(2) assms(1,2) step.IH have "(y, z) \<in> child_rel s"
    by (simp add: child_rel_def)
  with step.IH show ?case by simp
qed

lemma root_reach_root:
  assumes "wf_store s" "(r, x) \<in> (child_rel s)\<^sup>*" "parent (s ! x) = None"
  shows "x = r"
proof (rule ccontr)
  assume "x \<noteq> r"
  with assms(2) obtain y where "(y, x) \<in> child_rel s"
    by (auto elim: rtranclE)
  with assms(1,3) show False by (simp add: child_rel_parent)
qed

lemma good_root_tree:
  assumes f: "f \<in> set (fprune (\<lambda>x. \<not> is_dummy s x) False t)" and ta: "tree_at s1 f"
    and msg: "\<forall>x. message (s1 ! x) = message (s ! x)"
  shows "good_root s1 (croot f)"
proof -
  from fprune_False_shape[OF f]
  consider "\<forall>x \<in> set (cids f). \<not> is_dummy s x"
    | ks where "f = CNode (croot f) ks" "2 \<le> length ks"
        "\<forall>k \<in> set ks. \<forall>x \<in> set (cids k). \<not> is_dummy s x"
    by blast
  then show ?thesis
  proof cases
    case 1
    with croot_in_cids[of f] have "\<not> is_dummy s (croot f)" by blast
    with msg show ?thesis by (simp add: good_root_def is_dummy_def)
  next
    case 2
    from 2(2) obtain k ks' where ks: "ks = k # ks'" by (cases ks) auto
    with 2(3) croot_in_cids[of k] have "\<not> is_dummy s (croot k)" by auto
    with msg have m: "message (s1 ! croot k) \<noteq> None" by (simp add: is_dummy_def)
    from ta 2(1) ks have "children (s1 ! croot f) = croot k # map croot ks'"
      by (metis list.simps(9) tree_at.simps)
    with m show ?thesis by (simp add: good_root_def)
  qed
qed

lemma prune_root_set_ok:
  assumes "wf_store s" "distinct rs" "\<forall>r \<in> set rs. r < length s \<and> parent (s ! r) = None"
    "length s \<le> n"
  shows "\<exists>rs' s'. prune_root_set n s rs = Some (Inr (rs', s')) \<and> wf_store s' \<and>
     length s' = length s \<and> (\<forall>x. message (s' ! x) = message (s ! x)) \<and> distinct rs' \<and>
     (\<forall>x. (\<forall>r \<in> set rs. (r, x) \<notin> (child_rel s)\<^sup>*) \<longrightarrow>
          children (s' ! x) = children (s ! x) \<and> parent (s' ! x) = parent (s ! x)) \<and>
     (\<forall>r' \<in> set rs'. (\<exists>r \<in> set rs. (r, r') \<in> (child_rel s)\<^sup>*) \<and> r' < length s \<and>
          parent (s' ! r') = None \<and> good_root s' r')"
  using assms
proof (induction rs arbitrary: s)
  case Nil
  then show ?case by simp
next
  case (Cons c rest)
  let ?E = "child_rel s"
  let ?hm = "\<lambda>x. \<not> is_dummy s x"
  note wf = Cons.prems(1)
  from Cons.prems(3) have cv: "c < length s" and cp: "parent (s ! c) = None" by simp_all
  from root_tree[OF wf cv root_not_cyclic[OF wf cp]]
  obtain t where t: "croot t = c" "tree_at s t" "distinct (cids t)"
    and reach: "set (cids t) = ?E\<^sup>* `` {c}" by blast
  let ?F = "fprune ?hm False t"
  have "height t \<le> n"
    using tree_height_bound[OF t(2,3)] Cons.prems(4) by simp
  from prune_tree[OF t(2,3) this] t(1) cp
  obtain s1 where run1: "prune_container n s c = Some (Inr (map croot ?F, s1))"
    and post: "prune_post s s1 (cids t) ?F"
    and pc: "parent (s1 ! c) = None"
    and pr: "\<forall>r \<in> set ?F. croot r \<noteq> c \<longrightarrow> parent (s1 ! croot r) = None"
    unfolding prunes_to_def by auto
  from post have len1: "length s1 = length s"
    and msg1: "\<forall>x. message (s1 ! x) = message (s ! x)"
    and frame1: "\<forall>x. x \<notin> set (cids t) \<longrightarrow>
        children (s1 ! x) = children (s ! x) \<and> parent (s1 ! x) = parent (s ! x)"
    and trees1: "\<forall>r \<in> set ?F. tree_at s1 r"
    by (simp_all add: prune_post_def)
  from prune_wf(1)[of s c n] wf cv run1 have wf1: "wf_store s1" by blast
  have Fp: "parent (s1 ! croot f) = None" if "f \<in> set ?F" for f
    using pc pr that by (cases "croot f = c") auto
  have Fin: "croot f \<in> set (cids t)" if "f \<in> set ?F" for f
  proof -
    have "croot f \<in> set (concat (map cids ?F))"
      using that croot_in_cids[of f] by auto
    with fprune_cids[of ?hm False t] show ?thesis by blast
  qed
  have rest_out: "r \<notin> set (cids t)" if "r \<in> set rest" for r
  proof
    assume "r \<in> set (cids t)"
    moreover have "r \<noteq> croot t" using that Cons.prems(2) t(1) by auto
    ultimately have "parent (s ! r) \<noteq> None" by (rule tree_at_parent[OF t(2)])
    with Cons.prems(3) that show False by simp
  qed
  have rest1: "\<forall>r \<in> set rest. r < length s1 \<and> parent (s1 ! r) = None"
    using Cons.prems(3) rest_out frame1 len1 by simp
  have d_rest: "distinct rest" using Cons.prems(2) by simp
  have n1: "length s1 \<le> n" using Cons.prems(4) len1 by simp
  from Cons.IH[OF wf1 d_rest rest1 n1]
  obtain rs2 s' where run2: "prune_root_set n s1 rest = Some (Inr (rs2, s'))"
    and wf': "wf_store s'" and len': "length s' = length s1"
    and msg': "\<forall>x. message (s' ! x) = message (s1 ! x)" and d2: "distinct rs2"
    and frame2: "\<forall>x. (\<forall>r \<in> set rest. (r, x) \<notin> (child_rel s1)\<^sup>*) \<longrightarrow>
          children (s' ! x) = children (s1 ! x) \<and> parent (s' ! x) = parent (s1 ! x)"
    and res2: "\<forall>r' \<in> set rs2. (\<exists>r \<in> set rest. (r, r') \<in> (child_rel s1)\<^sup>*) \<and> r' < length s1 \<and>
          parent (s' ! r') = None \<and> good_root s' r'"
    by blast
  have disj: "(r, y) \<notin> ?E\<^sup>*" if "r \<in> set rest" "y \<in> set (cids t)" for r y
  proof
    assume ry: "(r, y) \<in> ?E\<^sup>*"
    from that(2) reach have "(c, y) \<in> ?E\<^sup>*" by auto
    from anc_chain[OF wf ry this] show False
    proof
      assume "(r, c) \<in> ?E\<^sup>*"
      from root_reach_root[OF wf this cp] that(1) Cons.prems(2) show False by simp
    next
      assume "(c, r) \<in> ?E\<^sup>*"
      with reach have "r \<in> set (cids t)" by auto
      with rest_out[OF that(1)] show False by simp
    qed
  qed
  have rback: "(r, x) \<in> ?E\<^sup>*" if "r \<in> set rest" "(r, x) \<in> (child_rel s1)\<^sup>*" for r x
  proof (rule reach_frame[OF _ len1 that(2)])
    show "\<forall>y. (r, y) \<in> ?E\<^sup>* \<longrightarrow> children (s1 ! y) = children (s ! y)"
      using disj[OF that(1)] frame1 by blast
  qed
  have F_unreached: "(r, croot f) \<notin> (child_rel s1)\<^sup>*" if "f \<in> set ?F" "r \<in> set rest" for f r
  proof
    assume "(r, croot f) \<in> (child_rel s1)\<^sup>*"
    from root_reach_root[OF wf1 this Fp[OF that(1)]] Fin[OF that(1)] rest_out[OF that(2)]
    show False by simp
  qed
  have F_same: "children (s' ! croot f) = children (s1 ! croot f) \<and>
      parent (s' ! croot f) = parent (s1 ! croot f)" if "f \<in> set ?F" for f
    using frame2 F_unreached[OF that] by blast
  let ?rs' = "map croot ?F @ rs2"
  have run: "prune_root_set n s (c # rest) = Some (Inr (?rs', s'))"
    using run1 run2 by simp
  have dF: "distinct (map croot ?F)"
    by (rule distinct_cids_roots[OF fprune_distinct[OF t(3)]])
  have dis: "set (map croot ?F) \<inter> set rs2 = {}"
  proof (rule ccontr)
    assume "set (map croot ?F) \<inter> set rs2 \<noteq> {}"
    then obtain f where f: "f \<in> set ?F" "croot f \<in> set rs2" by auto
    with res2 obtain r where "r \<in> set rest" "(r, croot f) \<in> (child_rel s1)\<^sup>*" by blast
    with F_unreached[OF f(1)] show False by blast
  qed
  have d': "distinct ?rs'" using dF d2 dis by simp
  have frame: "children (s' ! x) = children (s ! x) \<and> parent (s' ! x) = parent (s ! x)"
    if x: "\<forall>r \<in> set (c # rest). (r, x) \<notin> ?E\<^sup>*" for x
  proof -
    from x reach have "x \<notin> set (cids t)" by auto
    with frame1 have a: "children (s1 ! x) = children (s ! x) \<and> parent (s1 ! x) = parent (s ! x)"
      by simp
    have "\<forall>r \<in> set rest. (r, x) \<notin> (child_rel s1)\<^sup>*"
      using rback x by auto
    with frame2 a show ?thesis by simp
  qed
  have resF: "(\<exists>r \<in> set (c # rest). (r, croot f) \<in> ?E\<^sup>*) \<and> croot f < length s \<and>
      parent (s' ! croot f) = None \<and> good_root s' (croot f)" if f: "f \<in> set ?F" for f
  proof -
    from Fin[OF f] reach have "(c, croot f) \<in> ?E\<^sup>*" by auto
    moreover have "croot f < length s"
      using tree_at_valid[OF t(2) Fin[OF f]] .
    moreover have "parent (s' ! croot f) = None"
      using F_same[OF f] Fp[OF f] by simp
    moreover have "good_root s' (croot f)"
    proof -
      from trees1 f have "tree_at s1 f" by simp
      from good_root_tree[OF f this msg1] have "good_root s1 (croot f)" .
      with F_same[OF f] msg' show ?thesis by (auto simp: good_root_def split: list.splits)
    qed
    ultimately show ?thesis by auto
  qed
  have res2': "(\<exists>r \<in> set (c # rest). (r, r') \<in> ?E\<^sup>*) \<and> r' < length s \<and>
      parent (s' ! r') = None \<and> good_root s' r'" if "r' \<in> set rs2" for r'
  proof -
    from res2 that obtain r where "r \<in> set rest" "(r, r') \<in> (child_rel s1)\<^sup>*" by blast
    with rback have "\<exists>r \<in> set (c # rest). (r, r') \<in> ?E\<^sup>*" by auto
    with res2 that len1 show ?thesis by simp
  qed
  have res: "\<forall>r' \<in> set ?rs'. (\<exists>r \<in> set (c # rest). (r, r') \<in> ?E\<^sup>*) \<and> r' < length s \<and>
      parent (s' ! r') = None \<and> good_root s' r'"
    using resF res2' by auto
  have "wf_store s' \<and> length s' = length s \<and> (\<forall>x. message (s' ! x) = message (s ! x))"
    using wf' len' len1 msg' msg1 by simp
  with run d' frame res show ?case by blast
qed

section \<open>The search for a descendant\<close>

text \<open>
  What \<open>has_descendant\<close> finds is reachable through the children lists, and under a
  container with no parent nothing is reachable from itself.
\<close>

lemma has_descendant_loop_sound:
  "has_descendant_loop s ctr stack seen \<Longrightarrow> \<exists>x \<in> set stack. (x, ctr) \<in> (child_rel s)\<^sup>*"
proof (induction s ctr stack seen rule: has_descendant_loop.induct)
  case (1 s ctr seen)
  then show ?case by simp
next
  case (2 s ctr node stack seen)
  show ?case
  proof (cases "node = ctr")
    case True
    then show ?thesis by auto
  next
    case False
    with "2.prems" have valid: "\<not> length s \<le> node"
      and run: "has_descendant_loop s ctr
         (rev (filter (\<lambda>child. child \<notin> insert node seen) (children (s ! node))) @ stack)
         (insert node seen)"
      by (auto split: if_splits)
    from "2.IH"[OF False valid run]
    obtain x where x: "x \<in> set (children (s ! node)) \<or> x \<in> set stack"
      "(x, ctr) \<in> (child_rel s)\<^sup>*"
      by auto
    from x(1) show ?thesis
    proof
      assume "x \<in> set (children (s ! node))"
      with valid have "(node, x) \<in> child_rel s" by (simp add: child_rel_def)
      with x(2) have "(node, ctr) \<in> (child_rel s)\<^sup>*" by simp
      then show ?thesis by auto
    next
      assume "x \<in> set stack"
      with x(2) show ?thesis by auto
    qed
  qed
qed

lemma has_descendant_sound:
  "has_descendant s a b \<Longrightarrow> (a, b) \<in> (child_rel s)\<^sup>*"
  using has_descendant_loop_sound[of s b "[a]" "{}"] by (simp add: has_descendant_def)

lemma has_descendant_refl: "has_descendant s c c"
  by (simp add: has_descendant_def)

lemma under_root_acyclic:
  assumes wf: "wf_store s" and rp: "parent (s ! r) = None" and rc: "(r, c) \<in> (child_rel s)\<^sup>*"
  shows "(c, c) \<notin> (child_rel s)\<^sup>+"
  using rc
proof (induction rule: rtrancl_induct)
  case base
  show ?case by (rule root_not_cyclic[OF wf rp])
next
  case (step y z)
  from child_not_back(2)[OF wf step.IH step.hyps(2)] show ?case .
qed

lemma acyclic_has_descendant:
  assumes "(c, c) \<notin> (child_rel s)\<^sup>+"
  shows "(\<forall>d. d \<noteq> c \<and> has_descendant s c d \<longrightarrow> \<not> has_descendant s d c) \<and>
         (\<forall>k \<in> set (children (s ! c)). c < length s \<longrightarrow> \<not> has_descendant s k c)"
proof (intro conjI allI ballI impI)
  fix d assume d: "d \<noteq> c \<and> has_descendant s c d"
  show "\<not> has_descendant s d c"
  proof
    assume "has_descendant s d c"
    then have "(d, c) \<in> (child_rel s)\<^sup>*" by (rule has_descendant_sound)
    moreover from d have "(c, d) \<in> (child_rel s)\<^sup>*" by (simp add: has_descendant_sound)
    with d have "(c, d) \<in> (child_rel s)\<^sup>+" by (metis rtranclD)
    ultimately have "(c, c) \<in> (child_rel s)\<^sup>+" by simp
    with assms show False by simp
  qed
next
  fix k assume k: "k \<in> set (children (s ! c))" "c < length s"
  show "\<not> has_descendant s k c"
  proof
    assume "has_descendant s k c"
    then have "(k, c) \<in> (child_rel s)\<^sup>*" by (rule has_descendant_sound)
    moreover from k have "(c, k) \<in> child_rel s" by (simp add: child_rel_def)
    ultimately have "(c, c) \<in> (child_rel s)\<^sup>+" by simp
    with assms show False by simp
  qed
qed

section \<open>The subject table\<close>

text \<open>
  The loop that moves the children of one empty container to another returns with fuel
  above the number of children. The rank of a container is 0 when it is empty and one
  more than the length of its subject otherwise; the container that the table keeps for a
  subject is the first of the roots of least rank with that subject.
\<close>

lemma splice_children_ok:
  assumes "wf_store s" "ctr < length s" "c < length s" "ctr \<noteq> c"
    "length (children (s ! ctr)) - i < n"
  shows "\<exists>s'. splice_children n s ctr c i = Some (Inr s') \<and> wf_store s' \<and> length s' = length s \<and>
     (\<forall>x. message (s' ! x) = message (s ! x)) \<and>
     (\<forall>x. parent (s' ! x) = parent (s ! x) \<or> parent (s ! x) = Some ctr) \<and>
     (\<forall>x < length s. x \<noteq> ctr \<longrightarrow> x \<noteq> c \<longrightarrow> children (s' ! x) = children (s ! x))"
  using assms
proof (induction n arbitrary: s i)
  case 0
  then show ?case by simp
next
  case (Suc n)
  note wf = Suc.prems(1)
  show ?case
  proof (cases "i < length (children (s ! ctr))")
    case False
    with wf show ?thesis by simp
  next
    case True
    let ?child = "children (s ! ctr) ! i"
    have mem: "?child \<in> set (children (s ! ctr))" using True by simp
    from wf_storeD(2)[OF wf Suc.prems(2) mem]
    have chv: "?child < length s" and chp: "parent (s ! ?child) = Some ctr" by simp_all
    from add_child_wf[OF wf Suc.prems(3) chv]
    obtain s1 where run1: "add_child s c ?child = Inr s1" and wf1: "wf_store s1"
      and len1: "length s1 = length s"
      and msg1: "\<forall>x. message (s1 ! x) = message (s ! x)"
      and kids1: "\<forall>x < length s. children (s1 ! x) =
        remove1 ?child (children (s ! x)) @ (if x = c then [?child] else [])"
      and par1: "\<forall>x. parent (s1 ! x) = (if x = ?child then Some c else parent (s ! x))"
      by blast
    have kctr: "children (s1 ! ctr) = remove1 ?child (children (s ! ctr))"
      using kids1 Suc.prems(2,4) by simp
    have "length (children (s1 ! ctr)) = length (children (s ! ctr)) - 1"
      unfolding kctr using mem by (simp add: length_remove1)
    with True Suc.prems(5) have fuel: "length (children (s1 ! ctr)) - Suc i < n" by simp
    from Suc.IH[OF wf1 _ _ Suc.prems(4) fuel] Suc.prems(2,3) len1
    obtain s' where run2: "splice_children n s1 ctr c (Suc i) = Some (Inr s')"
      and wf': "wf_store s'" and len': "length s' = length s1"
      and msg': "\<forall>x. message (s' ! x) = message (s1 ! x)"
      and par': "\<forall>x. parent (s' ! x) = parent (s1 ! x) \<or> parent (s1 ! x) = Some ctr"
      and kids': "\<forall>x < length s1. x \<noteq> ctr \<longrightarrow> x \<noteq> c \<longrightarrow> children (s' ! x) = children (s1 ! x)"
      by auto
    have run: "splice_children (Suc n) s ctr c i = Some (Inr s')"
      using True run1 run2 by simp
    have par: "parent (s' ! x) = parent (s ! x) \<or> parent (s ! x) = Some ctr" for x
    proof (cases "x = ?child")
      case True
      with chp show ?thesis by simp
    next
      case False
      with par1 have "parent (s1 ! x) = parent (s ! x)" by simp
      with par' show ?thesis by metis
    qed
    have kids: "children (s' ! x) = children (s ! x)" if "x < length s" "x \<noteq> ctr" "x \<noteq> c" for x
    proof -
      have "parent (s ! ?child) \<noteq> Some x" using chp that(2) by simp
      from remove1_not_child[OF wf that(1) this] kids1 that
      have "children (s1 ! x) = children (s ! x)" by simp
      with kids' that len1 show ?thesis by simp
    qed
    from run wf' len' len1 msg' msg1 par kids show ?thesis by simp
  qed
qed

lemma update_set_sub:
  "(k', v') \<in> set (AList.update k v tbl) \<Longrightarrow> (k', v') = (k, v) \<or> (k', v') \<in> set tbl"
  by (induction tbl) (auto split: if_splits)

lemma update_set_cases:
  "distinct (map fst tbl) \<Longrightarrow> (k', v') \<in> set (AList.update k v tbl) \<Longrightarrow>
     (k', v') = (k, v) \<or> ((k', v') \<in> set tbl \<and> k' \<noteq> k)"
proof (induction tbl)
  case Nil
  then show ?case by simp
next
  case (Cons a tbl)
  show ?case
  proof (cases "fst a = k")
    case True
    with Cons.prems have "(k', v') = (k, v) \<or> (k', v') \<in> set tbl" by (cases a) auto
    moreover have "k' \<noteq> k" if "(k', v') \<in> set tbl"
    proof
      assume "k' = k"
      with that have "fst (k, v') \<in> fst ` set tbl" by (intro imageI) simp
      with True Cons.prems(1) show False by simp
    qed
    ultimately show ?thesis by auto
  next
    case False
    with Cons.prems have "(k', v') = a \<or> (k', v') \<in> set (AList.update k v tbl)"
      by (cases a) auto
    then show ?thesis
    proof
      assume "(k', v') = a"
      with False show ?thesis by auto
    next
      assume "(k', v') \<in> set (AList.update k v tbl)"
      with Cons.IH Cons.prems(1) show ?thesis by auto
    qed
  qed
qed

lemma update_set_new: "(k, v) \<in> set (AList.update k v tbl)"
  by (induction tbl) auto

lemma update_set_old: "(k', v') \<in> set tbl \<Longrightarrow> k' \<noteq> k \<Longrightarrow> (k', v') \<in> set (AList.update k v tbl)"
  by (induction tbl) auto

lemma update_distinct_values:
  "distinct (map snd tbl) \<Longrightarrow> v \<notin> snd ` set tbl \<Longrightarrow> distinct (map snd (AList.update k v tbl))"
proof (induction tbl)
  case Nil
  then show ?case by simp
next
  case (Cons a tbl)
  show ?case
  proof (cases "fst a = k")
    case True
    with Cons.prems show ?thesis by (cases a) auto
  next
    case False
    have "snd a \<notin> snd ` set (AList.update k v tbl)"
    proof
      assume "snd a \<in> snd ` set (AList.update k v tbl)"
      then obtain k' where "(k', snd a) \<in> set (AList.update k v tbl)" by force
      from update_set_sub[OF this] show False
      proof
        assume "(k', snd a) = (k, v)"
        with Cons.prems(2) show False by simp
      next
        assume "(k', snd a) \<in> set tbl"
        then have "snd (k', snd a) \<in> snd ` set tbl" by (rule imageI)
        with Cons.prems(1) show False by simp
      qed
    qed
    with False Cons show ?thesis by (cases a) auto
  qed
qed

lemma distinct_values_key:
  assumes "distinct (map snd tbl)" "(k, v) \<in> set tbl" "(k', v) \<in> set tbl"
  shows "k' = k"
  using assms
proof (induction tbl)
  case Nil
  then show ?case by simp
next
  case (Cons a tbl)
  then show ?case by (cases a) force
qed

lemma takeWhile_split:
  assumes "c \<notin> set pre"
  shows "takeWhile (\<lambda>x. x \<noteq> c) (pre @ c # rest) = pre"
  using assms by (induction pre) auto

definition rank :: "store \<Rightarrow> cid \<Rightarrow> nat" where
  "rank s x =
     (case message (s ! x) of
        None \<Rightarrow> 0
      | Some m \<Rightarrow> Suc (case subject m of None \<Rightarrow> 0 | Some str \<Rightarrow> length str))"

lemma replaces_rank:
  assumes "subjects_ok s" "e < length s" "c < length s"
  shows "replaces s e c = Inr (rank s c < rank s e)"
proof (cases "message (s ! e)")
  case None
  then show ?thesis by (simp add: replaces_def rank_def)
next
  case e: (Some em)
  with assms have se: "subject em \<noteq> None" by (simp add: subjects_ok_def)
  show ?thesis
  proof (cases "message (s ! c)")
    case None
    with e show ?thesis by (simp add: replaces_def rank_def)
  next
    case (Some cm)
    with assms have "subject cm \<noteq> None" by (simp add: subjects_ok_def)
    with se e Some show ?thesis
      by (auto simp: replaces_def rank_def len_subject_def)
  qed
qed

lemma root_subject_ok:
  assumes wf: "wf_store s" and sub: "subjects_ok s" and r: "r < length s" and g: "good_root s r"
  shows "\<exists>k. root_subject s r = Inr k"
proof (cases "message (s ! r)")
  case (Some m)
  with sub r have "subject m \<noteq> None" by (simp add: subjects_ok_def)
  with Some show ?thesis by (auto simp: root_subject_def normalise_def)
next
  case None
  with g obtain k ks where ks: "children (s ! r) = k # ks" and mk: "message (s ! k) \<noteq> None"
    by (auto simp: good_root_def split: list.splits)
  then obtain m where m: "message (s ! k) = Some m" by auto
  have "k \<in> set (children (s ! r))" using ks by simp
  from wf_storeD(2)[OF wf r this] have "k < length s" by simp
  with sub m have "subject m \<noteq> None" by (simp add: subjects_ok_def)
  with None ks m show ?thesis by (auto simp: root_subject_def normalise_def)
qed

definition table_inv :: "store \<Rightarrow> cid list \<Rightarrow> subject_table \<Rightarrow> bool" where
  "table_inv s P tbl =
     (distinct (map fst tbl) \<and>
      (\<forall>k v. (k, v) \<in> set tbl \<longrightarrow> v \<in> set P \<and> root_subject s v = Inr k \<and> k \<noteq> []) \<and>
      (\<forall>r \<in> set P. \<forall>k. root_subject s r = Inr k \<longrightarrow> k \<noteq> [] \<longrightarrow>
         (\<exists>v. (k, v) \<in> set tbl \<and> rank s v \<le> rank s r \<and>
              (rank s v = rank s r \<longrightarrow> r \<noteq> v \<longrightarrow> v \<in> set (takeWhile (\<lambda>x. x \<noteq> r) P)))))"

lemma takeWhile_snoc_mem:
  "r \<in> set P \<Longrightarrow> takeWhile (\<lambda>x. x \<noteq> r) (P @ ys) = takeWhile (\<lambda>x. x \<noteq> r) P"
  by (induction P) auto

lemma takeWhile_snoc_new:
  "c \<notin> set P \<Longrightarrow> takeWhile (\<lambda>x. x \<noteq> c) (P @ [c]) = P"
  by (induction P) auto

lemma distinct_keys_value:
  assumes "distinct (map fst tbl)" "(k, v) \<in> set tbl" "(k, v') \<in> set tbl"
  shows "v' = v"
  using assms by (metis map_of_is_SomeI option.inject)

lemma table_inv_skip:
  assumes inv: "table_inv s P tbl" and new: "c \<notin> set P"
    and key: "root_subject s c = Inr subj"
    and why: "subj = [] \<or> (\<exists>e. (subj, e) \<in> set tbl \<and> rank s e \<le> rank s c)"
  shows "table_inv s (P @ [c]) tbl"
proof -
  have a: "distinct (map fst tbl)" using inv by (simp add: table_inv_def)
  have b: "v \<in> set (P @ [c]) \<and> root_subject s v = Inr k \<and> k \<noteq> []" if "(k, v) \<in> set tbl" for k v
    using inv that by (simp add: table_inv_def)
  have c: "\<exists>v. (k, v) \<in> set tbl \<and> rank s v \<le> rank s r \<and>
      (rank s v = rank s r \<longrightarrow> r \<noteq> v \<longrightarrow> v \<in> set (takeWhile (\<lambda>x. x \<noteq> r) (P @ [c])))"
    if r: "r \<in> set (P @ [c])" and k: "root_subject s r = Inr k" "k \<noteq> []" for r k
  proof (cases "r \<in> set P")
    case True
    with inv k obtain v where "(k, v) \<in> set tbl" "rank s v \<le> rank s r"
      "rank s v = rank s r \<longrightarrow> r \<noteq> v \<longrightarrow> v \<in> set (takeWhile (\<lambda>x. x \<noteq> r) P)"
      unfolding table_inv_def by blast
    with takeWhile_snoc_mem[OF True, of "[c]"] show ?thesis by auto
  next
    case False
    with r have rc: "r = c" by simp
    with k key have ks: "k = subj" "subj \<noteq> []" by simp_all
    with why obtain e where e: "(subj, e) \<in> set tbl" "rank s e \<le> rank s c" by blast
    with inv have "e \<in> set P" by (simp add: table_inv_def)
    with e rc ks takeWhile_snoc_new[OF new] show ?thesis by auto
  qed
  show ?thesis
    unfolding table_inv_def
  proof (intro conjI)
    show "distinct (map fst tbl)" by (rule a)
    show "\<forall>k v. (k, v) \<in> set tbl \<longrightarrow> v \<in> set (P @ [c]) \<and> root_subject s v = Inr k \<and> k \<noteq> []"
      using b by blast
    show "\<forall>r \<in> set (P @ [c]). \<forall>k. root_subject s r = Inr k \<longrightarrow> k \<noteq> [] \<longrightarrow>
         (\<exists>v. (k, v) \<in> set tbl \<and> rank s v \<le> rank s r \<and>
              (rank s v = rank s r \<longrightarrow> r \<noteq> v \<longrightarrow> v \<in> set (takeWhile (\<lambda>x. x \<noteq> r) (P @ [c]))))"
      using c by blast
  qed
qed

lemma table_inv_put:
  assumes inv: "table_inv s P tbl" and new: "c \<notin> set P"
    and key: "root_subject s c = Inr subj" and ne: "subj \<noteq> []"
    and why: "\<forall>e. (subj, e) \<in> set tbl \<longrightarrow> rank s c < rank s e"
  shows "table_inv s (P @ [c]) (AList.update subj c tbl)"
proof -
  from inv have dk: "distinct (map fst tbl)" by (simp add: table_inv_def)
  then have a: "distinct (map fst (AList.update subj c tbl))" by (rule distinct_update)
  have b: "v \<in> set (P @ [c]) \<and> root_subject s v = Inr k \<and> k \<noteq> []"
    if "(k, v) \<in> set (AList.update subj c tbl)" for k v
    using update_set_sub[OF that] inv key ne by (auto simp: table_inv_def)
  have c: "\<exists>v. (k, v) \<in> set (AList.update subj c tbl) \<and> rank s v \<le> rank s r \<and>
      (rank s v = rank s r \<longrightarrow> r \<noteq> v \<longrightarrow> v \<in> set (takeWhile (\<lambda>x. x \<noteq> r) (P @ [c])))"
    if r: "r \<in> set (P @ [c])" and k: "root_subject s r = Inr k" "k \<noteq> []" for r k
  proof (cases "r \<in> set P")
    case False
    with r have rc: "r = c" by simp
    with k key have "k = subj" by simp
    with rc update_set_new[of subj c tbl] show ?thesis by auto
  next
    case True
    with inv k obtain v where v: "(k, v) \<in> set tbl" "rank s v \<le> rank s r"
      "rank s v = rank s r \<longrightarrow> r \<noteq> v \<longrightarrow> v \<in> set (takeWhile (\<lambda>x. x \<noteq> r) P)"
      unfolding table_inv_def by blast
    show ?thesis
    proof (cases "k = subj")
      case False
      from update_set_old[OF v(1) False] v(2,3) takeWhile_snoc_mem[OF True, of "[c]"]
      show ?thesis by auto
    next
      case ks: True
      with why v(1) have "rank s c < rank s v" by simp
      with v(2) have "rank s c < rank s r" by simp
      with ks update_set_new[of subj c tbl] show ?thesis by auto
    qed
  qed
  show ?thesis
    unfolding table_inv_def
  proof (intro conjI)
    show "distinct (map fst (AList.update subj c tbl))" by (rule a)
    show "\<forall>k v. (k, v) \<in> set (AList.update subj c tbl) \<longrightarrow>
        v \<in> set (P @ [c]) \<and> root_subject s v = Inr k \<and> k \<noteq> []"
      using b by blast
    show "\<forall>r \<in> set (P @ [c]). \<forall>k. root_subject s r = Inr k \<longrightarrow> k \<noteq> [] \<longrightarrow>
         (\<exists>v. (k, v) \<in> set (AList.update subj c tbl) \<and> rank s v \<le> rank s r \<and>
              (rank s v = rank s r \<longrightarrow> r \<noteq> v \<longrightarrow> v \<in> set (takeWhile (\<lambda>x. x \<noteq> r) (P @ [c]))))"
      using c by blast
  qed
qed

lemma build_subject_table_ok:
  assumes "table_inv s P tbl" "distinct (P @ rs)"
    "\<forall>r \<in> set rs. r < length s \<and> (\<exists>k. root_subject s r = Inr k)"
    "\<forall>r \<in> set P. r < length s" "subjects_ok s"
  shows "\<exists>tbl'. build_subject_table s tbl rs = Inr tbl' \<and> table_inv s (P @ rs) tbl'"
  using assms
proof (induction rs arbitrary: P tbl)
  case Nil
  then show ?case by simp
next
  case (Cons c rest)
  from Cons.prems(3) obtain subj where key: "root_subject s c = Inr subj" and cv: "c < length s"
    by auto
  from Cons.prems(2) have new: "c \<notin> set P" and d': "distinct ((P @ [c]) @ rest)" by auto
  have rv: "\<forall>r \<in> set rest. r < length s \<and> (\<exists>k. root_subject s r = Inr k)"
    using Cons.prems(3) by simp
  have pv: "\<forall>r \<in> set (P @ [c]). r < length s"
    using Cons.prems(4) cv by simp
  from Cons.prems(1) have dk: "distinct (map fst tbl)" by (simp add: table_inv_def)
  have step: "\<exists>tbl'. build_subject_table s tbl1 rest = Inr tbl' \<and> table_inv s (P @ c # rest) tbl'"
    if "table_inv s (P @ [c]) tbl1" for tbl1
    using Cons.IH[OF that d' rv pv Cons.prems(5)] by simp
  show ?case
  proof (cases "subj = []")
    case True
    from table_inv_skip[OF Cons.prems(1) new key] True
    have "table_inv s (P @ [c]) tbl" by simp
    from step[OF this] key True show ?thesis by simp
  next
    case ne: False
    show ?thesis
    proof (cases "map_of tbl subj")
      case None
      have "\<forall>e. (subj, e) \<in> set tbl \<longrightarrow> rank s c < rank s e"
        using None dk by (metis map_of_is_SomeI option.distinct(1))
      from step[OF table_inv_put[OF Cons.prems(1) new key ne this]] key ne None
      show ?thesis by simp
    next
      case (Some e)
      then have mem: "(subj, e) \<in> set tbl" by (rule map_of_SomeD)
      with Cons.prems(1) have "e \<in> set P" by (simp add: table_inv_def)
      with Cons.prems(4) have ev: "e < length s" by simp
      note rep = replaces_rank[OF Cons.prems(5) ev cv]
      show ?thesis
      proof (cases "rank s c < rank s e")
        case True
        have "\<forall>e'. (subj, e') \<in> set tbl \<longrightarrow> rank s c < rank s e'"
          using True distinct_keys_value[OF dk mem] by blast
        from step[OF table_inv_put[OF Cons.prems(1) new key ne this]] key ne Some rep True
        show ?thesis by simp
      next
        case False
        then have "subj = [] \<or> (\<exists>e. (subj, e) \<in> set tbl \<and> rank s e \<le> rank s c)"
          using mem by auto
        from step[OF table_inv_skip[OF Cons.prems(1) new key this]] key ne Some rep False
        show ?thesis by simp
      qed
    qed
  qed
qed

lemma table_inv_empty: "table_inv s [] []"
  by (simp add: table_inv_def)

section \<open>Merging the roots by subject\<close>

text \<open>
  The invariant of the merge loop over the pruned roots, relative to the store \<open>s0\<close>
  and the root list \<open>R\<close> it starts from: the store stays well formed and the messages
  stay in place, the containers of the table have no parent, the roots not yet visited
  have no parent and have kept their children as a prefix, and a representative never
  has a larger rank than a root of its subject.
\<close>

definition store_ext :: "store \<Rightarrow> store \<Rightarrow> bool" where
  "store_ext s0 s =
     (wf_store s \<and> length s0 \<le> length s \<and>
      (\<forall>x < length s0. message (s ! x) = message (s0 ! x)) \<and>
      (\<forall>x. length s0 \<le> x \<longrightarrow> x < length s \<longrightarrow> message (s ! x) = None))"

definition values_ok :: "store \<Rightarrow> cid list \<Rightarrow> store \<Rightarrow> subject_table \<Rightarrow> bool" where
  "values_ok s0 R s tbl =
     (distinct (map fst tbl) \<and> distinct (map snd tbl) \<and>
      (\<forall>k v. (k, v) \<in> set tbl \<longrightarrow>
         k \<noteq> [] \<and> v < length s \<and> parent (s ! v) = None \<and>
         (v < length s0 \<longrightarrow> v \<in> set R \<and> root_subject s0 v = Inr k)))"

definition rest_ok :: "store \<Rightarrow> store \<Rightarrow> cid list \<Rightarrow> bool" where
  "rest_ok s0 s rest =
     (\<forall>r \<in> set rest. parent (s ! r) = None \<and> (\<exists>ext. children (s ! r) = children (s0 ! r) @ ext))"

definition rank_ok :: "store \<Rightarrow> cid list \<Rightarrow> subject_table \<Rightarrow> cid list \<Rightarrow> bool" where
  "rank_ok s0 R tbl rest =
     (\<forall>k v. (k, v) \<in> set tbl \<longrightarrow>
        (\<forall>r \<in> set R. root_subject s0 r = Inr k \<longrightarrow> r \<noteq> v \<longrightarrow>
           (if v < length s0 then
              rank s0 v \<le> rank s0 r \<and>
              (rank s0 v = rank s0 r \<longrightarrow> v \<in> set (takeWhile (\<lambda>x. x \<noteq> r) R))
            else r \<in> set rest \<longrightarrow> message (s0 ! r) \<noteq> None)))"

definition merge_inv :: "store \<Rightarrow> cid list \<Rightarrow> store \<Rightarrow> subject_table \<Rightarrow> cid list \<Rightarrow> bool" where
  "merge_inv s0 R s tbl rest =
     (store_ext s0 s \<and> values_ok s0 R s tbl \<and> rest_ok s0 s rest \<and> rank_ok s0 R tbl rest \<and>
      length s + length rest \<le> length s0 + length R)"

definition roots_ok :: "store \<Rightarrow> cid list \<Rightarrow> bool" where
  "roots_ok s R =
     (wf_store s \<and> subjects_ok s \<and> distinct R \<and>
      (\<forall>r \<in> set R. r < length s \<and> parent (s ! r) = None \<and> good_root s r))"

lemma store_ext_fields:
  assumes "store_ext s0 s" "wf_store s'" "length s' = length s"
    "\<forall>x. message (s' ! x) = message (s ! x)"
  shows "store_ext s0 s'"
  using assms by (simp add: store_ext_def)

lemma values_ok_fields:
  assumes "values_ok s0 R s tbl" "length s \<le> length s'"
    "\<forall>k v. (k, v) \<in> set tbl \<longrightarrow> parent (s' ! v) = None"
  shows "values_ok s0 R s' tbl"
proof -
  have "k \<noteq> [] \<and> v < length s' \<and> parent (s' ! v) = None \<and>
         (v < length s0 \<longrightarrow> v \<in> set R \<and> root_subject s0 v = Inr k)"
    if "(k, v) \<in> set tbl" for k v
  proof -
    from assms(1) that have "k \<noteq> [] \<and> v < length s \<and>
         (v < length s0 \<longrightarrow> v \<in> set R \<and> root_subject s0 v = Inr k)"
      unfolding values_ok_def by blast
    with assms(2,3) that show ?thesis by auto
  qed
  with assms(1) show ?thesis unfolding values_ok_def by blast
qed

lemma rest_ok_fields:
  assumes "rest_ok s0 s (c # rest)"
    "\<forall>r \<in> set rest. parent (s' ! r) = parent (s ! r) \<and>
        (\<exists>ext. children (s' ! r) = children (s ! r) @ ext)"
  shows "rest_ok s0 s' rest"
  unfolding rest_ok_def
proof
  fix r assume r: "r \<in> set rest"
  with assms(1) obtain ext where a: "parent (s ! r) = None"
    "children (s ! r) = children (s0 ! r) @ ext"
    unfolding rest_ok_def by auto
  from assms(2) r obtain ext' where b: "parent (s' ! r) = parent (s ! r)"
    "children (s' ! r) = children (s ! r) @ ext'" by blast
  from a b have "children (s' ! r) = children (s0 ! r) @ (ext @ ext')" by simp
  with a b show "parent (s' ! r) = None \<and> (\<exists>ext. children (s' ! r) = children (s0 ! r) @ ext)"
    by metis
qed

lemma rank_ok_tail:
  assumes "rank_ok s0 R tbl (c # rest)"
  shows "rank_ok s0 R tbl rest"
proof -
  have "if v < length s0 then
              rank s0 v \<le> rank s0 r \<and>
              (rank s0 v = rank s0 r \<longrightarrow> v \<in> set (takeWhile (\<lambda>x. x \<noteq> r) R))
            else r \<in> set rest \<longrightarrow> message (s0 ! r) \<noteq> None"
    if "(k, v) \<in> set tbl" "r \<in> set R" "root_subject s0 r = Inr k" "r \<noteq> v" for k v r
  proof -
    from assms that have "if v < length s0 then
              rank s0 v \<le> rank s0 r \<and>
              (rank s0 v = rank s0 r \<longrightarrow> v \<in> set (takeWhile (\<lambda>x. x \<noteq> r) R))
            else r \<in> set (c # rest) \<longrightarrow> message (s0 ! r) \<noteq> None"
      unfolding rank_ok_def by blast
    then show ?thesis by (auto split: if_splits)
  qed
  then show ?thesis unfolding rank_ok_def by blast
qed

lemma merge_inv_skip:
  assumes "merge_inv s0 R s tbl (c # rest)"
  shows "merge_inv s0 R s tbl rest"
proof -
  from assms have "rest_ok s0 s rest" by (simp add: merge_inv_def rest_ok_def)
  moreover from assms have "rank_ok s0 R tbl (c # rest)" by (simp add: merge_inv_def)
  then have "rank_ok s0 R tbl rest" by (rule rank_ok_tail)
  ultimately show ?thesis using assms by (simp add: merge_inv_def)
qed

lemma root_subject_same:
  assumes "wf_store s0" "r < length s0" "good_root s0 r"
    "\<forall>x < length s0. message (s ! x) = message (s0 ! x)"
    "children (s ! r) = children (s0 ! r) @ ext"
  shows "root_subject s r = root_subject s0 r"
proof (cases "message (s0 ! r)")
  case (Some m)
  with assms(2,4) show ?thesis by (simp add: root_subject_def)
next
  case None
  with assms(3) obtain k ks where ks: "children (s0 ! r) = k # ks"
    by (auto simp: good_root_def split: list.splits)
  then have "k \<in> set (children (s0 ! r))" by simp
  from wf_storeD(2)[OF assms(1,2) this] have "k < length s0" by simp
  with assms(4) have "message (s ! k) = message (s0 ! k)" by simp
  with None ks assms(2,4,5) show ?thesis by (simp add: root_subject_def)
qed

lemma distinct_values_of_keys:
  assumes "distinct (map fst tbl)" "\<forall>k v. (k, v) \<in> set tbl \<longrightarrow> f v = k"
  shows "distinct (map snd tbl)"
proof -
  have "map fst tbl = map f (map snd tbl)"
    using assms(2) by (induction tbl) auto
  with assms(1) show ?thesis by (metis distinct_map)
qed

lemma merge_inv_init:
  assumes ro: "roots_ok s0 R" and ti: "table_inv s0 R tbl"
  shows "merge_inv s0 R s0 tbl R"
proof -
  from ro have wf: "wf_store s0" and rv: "\<forall>r \<in> set R. r < length s0 \<and> parent (s0 ! r) = None"
    by (simp_all add: roots_ok_def)
  from ti have dk: "distinct (map fst tbl)"
    and tv: "\<And>k v. (k, v) \<in> set tbl \<Longrightarrow> v \<in> set R \<and> root_subject s0 v = Inr k \<and> k \<noteq> []"
    and tr: "\<And>r k. r \<in> set R \<Longrightarrow> root_subject s0 r = Inr k \<Longrightarrow> k \<noteq> [] \<Longrightarrow>
         (\<exists>v. (k, v) \<in> set tbl \<and> rank s0 v \<le> rank s0 r \<and>
              (rank s0 v = rank s0 r \<longrightarrow> r \<noteq> v \<longrightarrow> v \<in> set (takeWhile (\<lambda>x. x \<noteq> r) R)))"
    unfolding table_inv_def by blast+
  have "store_ext s0 s0" using wf by (simp add: store_ext_def)
  moreover have "values_ok s0 R s0 tbl"
  proof -
    have "\<forall>k v. (k, v) \<in> set tbl \<longrightarrow> (case root_subject s0 v of Inr k \<Rightarrow> k | Inl e \<Rightarrow> []) = k"
      using tv by auto
    from distinct_values_of_keys[OF dk this] have "distinct (map snd tbl)" .
    with dk tv rv show ?thesis unfolding values_ok_def by blast
  qed
  moreover have "rest_ok s0 s0 R" using rv by (simp add: rest_ok_def)
  moreover have "rank_ok s0 R tbl R"
  proof -
    have "rank s0 v \<le> rank s0 r \<and>
              (rank s0 v = rank s0 r \<longrightarrow> v \<in> set (takeWhile (\<lambda>x. x \<noteq> r) R))"
      if "(k, v) \<in> set tbl" "r \<in> set R" "root_subject s0 r = Inr k" "r \<noteq> v" for k v r
    proof -
      from tv[OF that(1)] have "k \<noteq> []" by simp
      from tr[OF that(2,3) this] obtain v' where v': "(k, v') \<in> set tbl"
        "rank s0 v' \<le> rank s0 r"
        "rank s0 v' = rank s0 r \<longrightarrow> r \<noteq> v' \<longrightarrow> v' \<in> set (takeWhile (\<lambda>x. x \<noteq> r) R)"
        by blast
      from distinct_keys_value[OF dk that(1) v'(1)] have "v' = v" .
      with v' that(4) show ?thesis by simp
    qed
    moreover have "v < length s0" if "(k, v) \<in> set tbl" for k v
      using tv[OF that] rv by simp
    ultimately show ?thesis unfolding rank_ok_def by auto
  qed
  ultimately show ?thesis by (simp add: merge_inv_def)
qed

lemma merge_attach:
  assumes ext: "store_ext s0 s" and vals: "values_ok s0 R s tbl"
    and ro: "rest_ok s0 s (c # rest)" and cv: "c < length s" and ctrv: "ctr < length s"
    and cnv: "\<forall>k. (k, c) \<notin> set tbl" and cr: "c \<notin> set rest"
  shows "\<exists>s1. add_child s ctr c = Inr s1 \<and> length s1 = length s \<and> store_ext s0 s1 \<and>
     values_ok s0 R s1 tbl \<and> rest_ok s0 s1 rest"
proof -
  from ext have wf: "wf_store s" by (simp add: store_ext_def)
  from ro have cpar: "parent (s ! c) = None" by (simp add: rest_ok_def)
  from add_child_wf_root[OF wf ctrv cv cpar]
  obtain s1 where run: "add_child s ctr c = Inr s1" and wf1: "wf_store s1"
    and len1: "length s1 = length s"
    and msg1: "\<forall>x. message (s1 ! x) = message (s ! x)"
    and kids1: "\<forall>x. children (s1 ! x) =
        (if x = ctr then children (s ! ctr) @ [c] else children (s ! x))"
    and par1: "\<forall>x. parent (s1 ! x) = (if x = c then Some ctr else parent (s ! x))"
    by blast
  have e1: "store_ext s0 s1" by (rule store_ext_fields[OF ext wf1 len1 msg1])
  have "\<forall>k v. (k, v) \<in> set tbl \<longrightarrow> parent (s1 ! v) = None"
  proof (intro allI impI)
    fix k v assume kv: "(k, v) \<in> set tbl"
    with cnv have "v \<noteq> c" by auto
    moreover from vals kv have "parent (s ! v) = None" unfolding values_ok_def by blast
    ultimately show "parent (s1 ! v) = None" using par1 by simp
  qed
  from values_ok_fields[OF vals _ this] len1 have v1: "values_ok s0 R s1 tbl" by simp
  have "\<forall>r \<in> set rest. parent (s1 ! r) = parent (s ! r) \<and>
        (\<exists>ext. children (s1 ! r) = children (s ! r) @ ext)"
  proof
    fix r assume "r \<in> set rest"
    with cr have "r \<noteq> c" by auto
    with par1 have "parent (s1 ! r) = parent (s ! r)" by simp
    moreover have "\<exists>ext. children (s1 ! r) = children (s ! r) @ ext"
      using kids1 by (cases "r = ctr") auto
    ultimately show "parent (s1 ! r) = parent (s ! r) \<and>
        (\<exists>ext. children (s1 ! r) = children (s ! r) @ ext)" by simp
  qed
  from rest_ok_fields[OF ro this] have "rest_ok s0 s1 rest" .
  with run len1 e1 v1 show ?thesis by blast
qed

lemma merge_splice:
  assumes ext: "store_ext s0 s" and vals: "values_ok s0 R s tbl"
    and ro: "rest_ok s0 s (c # rest)" and cv: "c < length s" and ctrv: "ctr < length s"
    and ne: "ctr \<noteq> c" and ctrr: "ctr \<notin> set rest" and cr: "c \<notin> set rest"
    and rv: "\<forall>r \<in> set rest. r < length s"
    and fuel: "length (children (s ! ctr)) < n"
  shows "\<exists>s1. splice_children n s ctr c 0 = Some (Inr s1) \<and> length s1 = length s \<and>
     store_ext s0 s1 \<and> values_ok s0 R s1 tbl \<and> rest_ok s0 s1 rest"
proof -
  from ext have wf: "wf_store s" by (simp add: store_ext_def)
  from fuel have "length (children (s ! ctr)) - 0 < n" by simp
  from splice_children_ok[OF wf ctrv cv ne this]
  obtain s1 where run: "splice_children n s ctr c 0 = Some (Inr s1)" and wf1: "wf_store s1"
    and len1: "length s1 = length s"
    and msg1: "\<forall>x. message (s1 ! x) = message (s ! x)"
    and par1: "\<forall>x. parent (s1 ! x) = parent (s ! x) \<or> parent (s ! x) = Some ctr"
    and kids1: "\<forall>x < length s. x \<noteq> ctr \<longrightarrow> x \<noteq> c \<longrightarrow> children (s1 ! x) = children (s ! x)"
    by blast
  have e1: "store_ext s0 s1" by (rule store_ext_fields[OF ext wf1 len1 msg1])
  have "\<forall>k v. (k, v) \<in> set tbl \<longrightarrow> parent (s1 ! v) = None"
  proof (intro allI impI)
    fix k v assume kv: "(k, v) \<in> set tbl"
    with vals have "parent (s ! v) = None" unfolding values_ok_def by blast
    with par1[rule_format, of v] show "parent (s1 ! v) = None" by auto
  qed
  from values_ok_fields[OF vals _ this] len1 have v1: "values_ok s0 R s1 tbl" by simp
  have "\<forall>r \<in> set rest. parent (s1 ! r) = parent (s ! r) \<and>
        (\<exists>ext. children (s1 ! r) = children (s ! r) @ ext)"
  proof
    fix r assume r: "r \<in> set rest"
    with ro have "parent (s ! r) = None" by (simp add: rest_ok_def)
    with par1[rule_format, of r] have "parent (s1 ! r) = parent (s ! r)" by auto
    moreover from r ctrr cr rv have "r \<noteq> ctr" "r \<noteq> c" "r < length s" by auto
    with kids1 have "children (s1 ! r) = children (s ! r) @ []" by simp
    ultimately show "parent (s1 ! r) = parent (s ! r) \<and>
        (\<exists>ext. children (s1 ! r) = children (s ! r) @ ext)" by blast
  qed
  from rest_ok_fields[OF ro this] have "rest_ok s0 s1 rest" .
  with run len1 e1 v1 show ?thesis by blast
qed

lemma merge_join:
  assumes ext: "store_ext s0 s" and vals: "values_ok s0 R s tbl"
    and ro: "rest_ok s0 s (c # rest)" and cv: "c < length s"
    and ne: "ctr \<noteq> c" and ctrr: "ctr \<notin> set rest" and cr: "c \<notin> set rest"
    and rv: "\<forall>r \<in> set rest. r < length s"
    and cnv: "\<forall>k. (k, c) \<notin> set tbl" and mem: "(subj, ctr) \<in> set tbl"
  shows "\<exists>s2 s3. add_child (s @ [Container_init]) (length s) ctr = Inr s2 \<and>
     add_child s2 (length s) c = Inr s3 \<and> length s3 = Suc (length s) \<and>
     store_ext s0 s3 \<and> values_ok s0 R s3 (AList.update subj (length s) tbl) \<and>
     rest_ok s0 s3 rest"
proof -
  let ?new = "length s"
  let ?s1 = "s @ [Container_init]"
  from ext have wf: "wf_store s" and len0: "length s0 \<le> length s"
    and msg0: "\<forall>x < length s0. message (s ! x) = message (s0 ! x)"
    and msgn: "\<forall>x. length s0 \<le> x \<longrightarrow> x < length s \<longrightarrow> message (s ! x) = None"
    by (simp_all add: store_ext_def)
  from vals have dk: "distinct (map fst tbl)" and dv: "distinct (map snd tbl)"
    and tv: "\<And>k v. (k, v) \<in> set tbl \<Longrightarrow> k \<noteq> [] \<and> v < length s \<and> parent (s ! v) = None \<and>
         (v < length s0 \<longrightarrow> v \<in> set R \<and> root_subject s0 v = Inr k)"
    unfolding values_ok_def by blast+
  from tv[OF mem] have ctrv: "ctr < length s" and ctrp: "parent (s ! ctr) = None"
    and sne: "subj \<noteq> []" by simp_all
  from ro have cpar: "parent (s ! c) = None" by (simp add: rest_ok_def)
  have wf1: "wf_store ?s1" by (rule wf_alloc[OF wf])
  have old1: "?s1 ! x = s ! x" if "x < length s" for x
    using that by (simp add: nth_append)
  have new1: "?s1 ! ?new = Container_init" by simp
  have p1: "parent (?s1 ! ctr) = None" using ctrp ctrv by (simp add: old1)
  have nv1: "?new < length ?s1" and ctrv1: "ctr < length ?s1" using ctrv by simp_all
  from add_child_wf_root[OF wf1 nv1 ctrv1 p1]
  obtain s2 where run2: "add_child ?s1 ?new ctr = Inr s2" and wf2: "wf_store s2"
    and len2: "length s2 = Suc (length s)"
    and msg2: "\<forall>x. message (s2 ! x) = message (?s1 ! x)"
    and kids2: "\<forall>x. children (s2 ! x) =
        (if x = ?new then children (?s1 ! ?new) @ [ctr] else children (?s1 ! x))"
    and par2: "\<forall>x. parent (s2 ! x) = (if x = ctr then Some ?new else parent (?s1 ! x))"
    by auto
  have p2: "parent (s2 ! c) = None" using par2 ne cpar cv by (simp add: old1)
  have nv2: "?new < length s2" and cv2: "c < length s2" using cv len2 by simp_all
  from add_child_wf_root[OF wf2 nv2 cv2 p2] len2
  obtain s3 where run3: "add_child s2 ?new c = Inr s3" and wf3: "wf_store s3"
    and len3: "length s3 = Suc (length s)"
    and msg3: "\<forall>x. message (s3 ! x) = message (s2 ! x)"
    and kids3: "\<forall>x. children (s3 ! x) =
        (if x = ?new then children (s2 ! ?new) @ [c] else children (s2 ! x))"
    and par3: "\<forall>x. parent (s3 ! x) = (if x = c then Some ?new else parent (s2 ! x))"
    by auto
  have msg_old: "message (s3 ! x) = message (s ! x)" if "x < length s" for x
    using msg3 msg2 old1[OF that] by simp
  have msg_new: "message (s3 ! ?new) = None"
    using msg3 msg2 new1 by (simp add: Container_init_def)
  have par_old: "parent (s3 ! x) = parent (s ! x)" if "x < length s" "x \<noteq> c" "x \<noteq> ctr" for x
    using par3 par2 old1[OF that(1)] that(2,3) by simp
  have par_new: "parent (s3 ! ?new) = None"
    using par3 par2 new1 cv ctrv by (simp add: Container_init_def)
  have kids_old: "children (s3 ! x) = children (s ! x)" if "x < length s" for x
    using kids3 kids2 old1[OF that] that by simp
  have e3: "store_ext s0 s3"
    unfolding store_ext_def
  proof (intro conjI allI impI)
    show "wf_store s3" by (rule wf3)
    show "length s0 \<le> length s3" using len0 len3 by simp
    show "message (s3 ! x) = message (s0 ! x)" if "x < length s0" for x
      using msg_old[of x] msg0 that len0 by simp
    show "message (s3 ! x) = None" if "length s0 \<le> x" "x < length s3" for x
    proof (cases "x < length s")
      case True
      with msg_old[OF True] msgn that show ?thesis by simp
    next
      case False
      with that len3 have "x = ?new" by simp
      with msg_new show ?thesis by simp
    qed
  qed
  have newv: "?new \<notin> snd ` set tbl"
  proof
    assume "?new \<in> snd ` set tbl"
    then obtain k where "(k, ?new) \<in> set tbl" by force
    from tv[OF this] show False by simp
  qed
  have v3: "values_ok s0 R s3 (AList.update subj ?new tbl)"
  proof -
    have a: "distinct (map fst (AList.update subj ?new tbl))"
      by (rule distinct_update[OF dk])
    have b: "distinct (map snd (AList.update subj ?new tbl))"
      by (rule update_distinct_values[OF dv newv])
    have c: "k \<noteq> [] \<and> v < length s3 \<and> parent (s3 ! v) = None \<and>
         (v < length s0 \<longrightarrow> v \<in> set R \<and> root_subject s0 v = Inr k)"
      if kv: "(k, v) \<in> set (AList.update subj ?new tbl)" for k v
    proof -
      from update_set_cases[OF dk kv]
      consider "k = subj" "v = ?new" | "(k, v) \<in> set tbl" "k \<noteq> subj" by auto
      then show ?thesis
      proof cases
        case 1
        with sne len3 par_new len0 show ?thesis by simp
      next
        case 2
        from tv[OF 2(1)] have old: "k \<noteq> []" "v < length s" "parent (s ! v) = None"
          "v < length s0 \<longrightarrow> v \<in> set R \<and> root_subject s0 v = Inr k" by simp_all
        have "v \<noteq> ctr"
        proof
          assume "v = ctr"
          with 2(1) distinct_values_key[OF dv mem, of k] 2(2) show False by simp
        qed
        moreover have "v \<noteq> c" using cnv 2(1) by auto
        ultimately have "parent (s3 ! v) = None"
          using par_old[OF old(2)] old(3) by simp
        with old len3 show ?thesis by simp
      qed
    qed
    from a b c show ?thesis unfolding values_ok_def by blast
  qed
  have "\<forall>r \<in> set rest. parent (s3 ! r) = parent (s ! r) \<and>
        (\<exists>ext. children (s3 ! r) = children (s ! r) @ ext)"
  proof
    fix r assume r: "r \<in> set rest"
    with ctrr cr rv have "r \<noteq> ctr" "r \<noteq> c" "r < length s" by auto
    with par_old[of r] kids_old[of r]
    have "parent (s3 ! r) = parent (s ! r)" "children (s3 ! r) = children (s ! r) @ []"
      by simp_all
    then show "parent (s3 ! r) = parent (s ! r) \<and>
        (\<exists>ext. children (s3 ! r) = children (s ! r) @ ext)" by blast
  qed
  from rest_ok_fields[OF ro this] have "rest_ok s0 s3 rest" .
  with run2 run3 len3 e3 v3 show ?thesis by blast
qed

lemma rank_pos: "message (s ! x) \<noteq> None \<longleftrightarrow> 0 < rank s x"
  by (auto simp: rank_def split: option.splits)

lemma rank_ok_join:
  assumes ok: "rank_ok s0 R tbl (c # rest)" and dk: "distinct (map fst tbl)"
    and mem: "(subj, ctr) \<in> set tbl" and ctr0: "ctr < length s0"
    and ctrm: "message (s0 ! ctr) \<noteq> None" and ctrr: "ctr \<notin> set rest"
    and new: "length s0 \<le> new"
  shows "rank_ok s0 R (AList.update subj new tbl) rest"
proof -
  from rank_ok_tail[OF ok] have tl: "rank_ok s0 R tbl rest" .
  have "if v < length s0 then
              rank s0 v \<le> rank s0 r \<and>
              (rank s0 v = rank s0 r \<longrightarrow> v \<in> set (takeWhile (\<lambda>x. x \<noteq> r) R))
            else r \<in> set rest \<longrightarrow> message (s0 ! r) \<noteq> None"
    if kv: "(k, v) \<in> set (AList.update subj new tbl)" and r: "r \<in> set R"
      "root_subject s0 r = Inr k" "r \<noteq> v" for k v r
  proof -
    from update_set_cases[OF dk kv]
    consider "k = subj" "v = new" | "(k, v) \<in> set tbl" by auto
    then show ?thesis
    proof cases
      case 1
      have "message (s0 ! r) \<noteq> None" if rr: "r \<in> set rest"
      proof -
        from rr ctrr have "r \<noteq> ctr" by auto
        with ok mem r 1 ctr0 have "rank s0 ctr \<le> rank s0 r"
          unfolding rank_ok_def by (metis (no_types, lifting))
        moreover from ctrm have "0 < rank s0 ctr" by (simp only: rank_pos)
        ultimately have "0 < rank s0 r" by simp
        then show ?thesis by (simp only: rank_pos)
      qed
      with 1 new show ?thesis by simp
    next
      case 2
      with tl r show ?thesis unfolding rank_ok_def by blast
    qed
  qed
  then show ?thesis unfolding rank_ok_def by blast
qed

lemma merge_pair_ok:
  assumes ro: "roots_ok s0 R" and split: "R = pre @ c # rest"
    and inv: "merge_inv s0 R s tbl (c # rest)"
    and key: "root_subject s0 c = Inr subj" and look: "map_of tbl subj = Some ctr"
    and ne: "ctr \<noteq> c" and fuel: "2 * length s0 < n"
  shows "\<exists>tbl' s'. merge_pair n s tbl subj ctr c = Some (Inr (tbl', s')) \<and>
     merge_inv s0 R s' tbl' rest"
proof -
  from inv have ext: "store_ext s0 s" and vals: "values_ok s0 R s tbl"
    and rok: "rest_ok s0 s (c # rest)" and rk: "rank_ok s0 R tbl (c # rest)"
    and lb: "length s + Suc (length rest) \<le> length s0 + length R"
    by (simp_all add: merge_inv_def)
  from ro have wf0: "wf_store s0" and sub0: "subjects_ok s0" and dR: "distinct R"
    and Rv: "\<forall>r \<in> set R. r < length s0"
    by (simp_all add: roots_ok_def)
  from ext have wf: "wf_store s" and len0: "length s0 \<le> length s"
    and msg0: "\<forall>x < length s0. message (s ! x) = message (s0 ! x)"
    and msgn: "\<forall>x. length s0 \<le> x \<longrightarrow> x < length s \<longrightarrow> message (s ! x) = None"
    by (simp_all add: store_ext_def)
  from vals have dk: "distinct (map fst tbl)" and dv: "distinct (map snd tbl)"
    and tv: "\<And>k v. (k, v) \<in> set tbl \<Longrightarrow> k \<noteq> [] \<and> v < length s \<and> parent (s ! v) = None \<and>
         (v < length s0 \<longrightarrow> v \<in> set R \<and> root_subject s0 v = Inr k)"
    unfolding values_ok_def by blast+
  have cR: "c \<in> set R" using split by simp
  with Rv have c0: "c < length s0" by simp
  with len0 have cv: "c < length s" by simp
  from dR split have cr: "c \<notin> set rest" and cpre: "c \<notin> set pre"
    and pre_rest: "set pre \<inter> set rest = {}" by auto
  have restv: "\<forall>r \<in> set rest. r < length s"
  proof
    fix r assume "r \<in> set rest"
    with split have "r \<in> set R" by simp
    with Rv have "r < length s0" by simp
    with len0 show "r < length s" by simp
  qed
  from look have mem: "(subj, ctr) \<in> set tbl" by (rule map_of_SomeD)
  from tv[OF mem] have ctrv: "ctr < length s" by simp
  have cnv: "\<forall>k. (k, c) \<notin> set tbl"
  proof (intro allI notI)
    fix k assume kc: "(k, c) \<in> set tbl"
    from tv[OF kc] c0 key have "k = subj" by simp
    with kc distinct_keys_value[OF dk mem, of c] ne show False by simp
  qed
  have dmc: "is_dummy s c \<longleftrightarrow> message (s0 ! c) = None"
    using msg0 c0 by (simp add: is_dummy_def)
  have rankfact: "if ctr < length s0 then
              rank s0 ctr \<le> rank s0 c \<and>
              (rank s0 ctr = rank s0 c \<longrightarrow> ctr \<in> set (takeWhile (\<lambda>x. x \<noteq> c) R))
            else c \<in> set (c # rest) \<longrightarrow> message (s0 ! c) \<noteq> None"
    using rk mem cR key ne unfolding rank_ok_def by (metis (no_types, lifting))
  have tw: "takeWhile (\<lambda>x. x \<noteq> c) R = pre"
    unfolding split by (rule takeWhile_split[OF cpre])
  have tie: "ctr \<notin> set rest" if "ctr < length s0" "rank s0 ctr = rank s0 c"
  proof -
    from rankfact that tw have "ctr \<in> set pre" by simp
    with pre_rest show ?thesis by auto
  qed
  have lenR: "length R \<le> length s0"
    by (rule distinct_ids_bound[OF dR Rv])
  have fuel': "length (children (s ! ctr)) < n"
  proof -
    have "\<forall>k \<in> set (children (s ! ctr)). k < length s"
      using wf_storeD(2)[OF wf ctrv] by blast
    from distinct_ids_bound[OF wf_storeD(1)[OF wf ctrv] this]
    have "length (children (s ! ctr)) \<le> length s" .
    with lb lenR fuel show ?thesis by simp
  qed
  have fin: "merge_inv s0 R s1 tbl1 rest"
    if "store_ext s0 s1" "values_ok s0 R s1 tbl1" "rest_ok s0 s1 rest" "rank_ok s0 R tbl1 rest"
      "length s1 \<le> Suc (length s)" for s1 tbl1
    using that lb by (simp add: merge_inv_def)
  note rk' = rank_ok_tail[OF rk]
  have attach: ?thesis if run: "merge_pair n s tbl subj ctr c =
      (case add_child s ctr c of Inl e \<Rightarrow> Some (Inl e) | Inr s1 \<Rightarrow> Some (Inr (tbl, s1)))"
  proof -
    from merge_attach[OF ext vals rok cv ctrv cnv cr]
    obtain s1 where s1: "add_child s ctr c = Inr s1" "length s1 = length s" "store_ext s0 s1"
      "values_ok s0 R s1 tbl" "rest_ok s0 s1 rest" by blast
    from fin[OF s1(3,4,5) rk'] s1(2) have "merge_inv s0 R s1 tbl rest" by simp
    with run s1(1) show ?thesis by simp
  qed
  show ?thesis
  proof (cases "is_dummy s ctr")
    case dctr: True
    show ?thesis
    proof (cases "is_dummy s c")
      case dc: True
      with dmc rankfact have ctr0: "ctr < length s0" by (auto split: if_splits)
      with msg0 dctr have "message (s0 ! ctr) = None" by (simp add: is_dummy_def)
      with dc dmc have "rank s0 ctr = rank s0 c" by (simp add: rank_def)
      from tie[OF ctr0 this] have ctrr: "ctr \<notin> set rest" .
      from merge_splice[OF ext vals rok cv ctrv ne ctrr cr restv fuel']
      obtain s1 where s1: "splice_children n s ctr c 0 = Some (Inr s1)" "length s1 = length s"
        "store_ext s0 s1" "values_ok s0 R s1 tbl" "rest_ok s0 s1 rest" by blast
      from fin[OF s1(3,4,5) rk'] s1(2) have "merge_inv s0 R s1 tbl rest" by simp
      moreover have "merge_pair n s tbl subj ctr c = Some (Inr (tbl, s1))"
        using dctr dc s1(1) by (simp add: merge_pair_def)
      ultimately show ?thesis by blast
    next
      case False
      with dctr show ?thesis by (intro attach) (simp add: merge_pair_def)
    qed
  next
    case ndctr: False
    have ctr0: "ctr < length s0"
    proof (rule ccontr)
      assume "\<not> ctr < length s0"
      with msgn ctrv have "message (s ! ctr) = None" by simp
      with ndctr show False by (simp add: is_dummy_def)
    qed
    from ndctr msg0 ctr0 have mctr: "message (s0 ! ctr) \<noteq> None"
      by (simp add: is_dummy_def)
    then have rpos: "0 < rank s0 ctr" by (simp only: rank_pos)
    from rankfact ctr0 have rle: "rank s0 ctr \<le> rank s0 c" by simp
    with rpos have "0 < rank s0 c" by simp
    then have mc: "message (s0 ! c) \<noteq> None" by (simp only: rank_pos)
    with dmc have ndc: "\<not> is_dummy s c" by simp
    from mctr obtain m1 where m1: "message (s0 ! ctr) = Some m1" by auto
    from mc obtain m2 where m2: "message (s0 ! c) = Some m2" by auto
    from sub0 ctr0 m1 obtain str1 where str1: "subject m1 = Some str1"
      by (auto simp: subjects_ok_def)
    from sub0 c0 m2 obtain str2 where str2: "subject m2 = Some str2"
      by (auto simp: subjects_ok_def)
    have l1: "len_subject (the (message (s ! ctr))) = Inr (length str1)"
      using msg0 ctr0 m1 str1 by (simp add: len_subject_def)
    have l2: "len_subject (the (message (s ! c))) = Inr (length str2)"
      using msg0 c0 m2 str2 by (simp add: len_subject_def)
    have r1: "rank s0 ctr = Suc (length str1)" using m1 str1 by (simp add: rank_def)
    have r2: "rank s0 c = Suc (length str2)" using m2 str2 by (simp add: rank_def)
    from rle r1 r2 have le: "length str1 \<le> length str2" by simp
    show ?thesis
    proof (cases "length str1 < length str2")
      case True
      with ndctr ndc l1 l2 show ?thesis by (intro attach) (simp add: merge_pair_def)
    next
      case False
      with le have eq: "length str1 = length str2" by simp
      with r1 r2 have "rank s0 ctr = rank s0 c" by simp
      from tie[OF ctr0 this] have ctrr: "ctr \<notin> set rest" .
      from merge_join[OF ext vals rok cv ne ctrr cr restv cnv mem]
      obtain s2 s3 where j: "add_child (s @ [Container_init]) (length s) ctr = Inr s2"
        "add_child s2 (length s) c = Inr s3" "length s3 = Suc (length s)"
        "store_ext s0 s3" "values_ok s0 R s3 (AList.update subj (length s) tbl)"
        "rest_ok s0 s3 rest" by blast
      from rank_ok_join[OF rk dk mem ctr0 mctr ctrr len0]
      have "rank_ok s0 R (AList.update subj (length s) tbl) rest" .
      from fin[OF j(4,5,6) this] j(3)
      have "merge_inv s0 R s3 (AList.update subj (length s) tbl) rest" by simp
      moreover have "merge_pair n s tbl subj ctr c =
          Some (Inr (AList.update subj (length s) tbl, s3))"
        using ndctr ndc l1 l2 eq j(1,2) by (simp add: merge_pair_def alloc_def)
      ultimately show ?thesis by blast
    qed
  qed
qed

lemma merge_root_set_ok:
  assumes ro: "roots_ok s0 R" and fuel: "2 * length s0 < n"
  shows "R = pre @ rest \<Longrightarrow> merge_inv s0 R s tbl rest \<Longrightarrow>
     \<exists>tbl' s'. merge_root_set n s tbl rest = Some (Inr (tbl', s')) \<and> merge_inv s0 R s' tbl' []"
proof (induction rest arbitrary: pre s tbl)
  case Nil
  then show ?case by simp
next
  case (Cons c rest)
  from ro have wf0: "wf_store s0" and sub0: "subjects_ok s0"
    and Rv: "\<forall>r \<in> set R. r < length s0 \<and> good_root s0 r"
    by (simp_all add: roots_ok_def)
  from Cons.prems(1) Rv have c0: "c < length s0" and cg: "good_root s0 c" by simp_all
  from root_subject_ok[OF wf0 sub0 c0 cg] obtain subj where key: "root_subject s0 c = Inr subj"
    by blast
  from Cons.prems(2) have msg0: "\<forall>x < length s0. message (s ! x) = message (s0 ! x)"
    and "rest_ok s0 s (c # rest)"
    by (simp_all add: merge_inv_def store_ext_def)
  then obtain ext where "children (s ! c) = children (s0 ! c) @ ext"
    by (auto simp: rest_ok_def)
  from root_subject_same[OF wf0 c0 cg msg0 this] key
  have key': "root_subject s c = Inr subj" by simp
  have split': "R = (pre @ [c]) @ rest" using Cons.prems(1) by simp
  have skip: "\<exists>tbl' s'. merge_root_set n s tbl rest = Some (Inr (tbl', s')) \<and>
      merge_inv s0 R s' tbl' []"
    by (rule Cons.IH[OF split' merge_inv_skip[OF Cons.prems(2)]])
  show ?case
  proof (cases "map_of tbl subj")
    case None
    with key' skip show ?thesis by simp
  next
    case (Some ctr)
    show ?thesis
    proof (cases "ctr = c")
      case True
      with key' Some skip show ?thesis by simp
    next
      case False
      from merge_pair_ok[OF ro Cons.prems(1,2) key Some False fuel]
      obtain tbl1 s1 where m: "merge_pair n s tbl subj ctr c = Some (Inr (tbl1, s1))"
        "merge_inv s0 R s1 tbl1 rest" by blast
      from Cons.IH[OF split' m(2)] key' Some False m(1) show ?thesis by simp
    qed
  qed
qed

lemma group_root_set_ok:
  assumes ro: "roots_ok s0 R" and fuel: "2 * length s0 < n"
  shows "\<exists>res s'. group_root_set n s0 R = Some (Inr (res, s')) \<and> wf_store s' \<and>
     (\<forall>r \<in> set res. r < length s' \<and> parent (s' ! r) = None)"
proof -
  from ro have wf0: "wf_store s0" and sub0: "subjects_ok s0" and dR: "distinct R"
    and Rv: "\<forall>r \<in> set R. r < length s0 \<and> good_root s0 r"
    by (simp_all add: roots_ok_def)
  have keys: "\<forall>r \<in> set R. r < length s0 \<and> (\<exists>k. root_subject s0 r = Inr k)"
    using Rv root_subject_ok[OF wf0 sub0] by blast
  from build_subject_table_ok[OF table_inv_empty _ keys _ sub0] dR
  obtain tbl where b: "build_subject_table s0 [] R = Inr tbl" "table_inv s0 R tbl"
    by auto
  from merge_root_set_ok[OF ro fuel _ merge_inv_init[OF ro b(2)], of "[]"]
  obtain tbl' s' where m: "merge_root_set n s0 tbl R = Some (Inr (tbl', s'))"
    "merge_inv s0 R s' tbl' []" by auto
  from m(2) have "wf_store s'" and vals: "values_ok s0 R s' tbl'"
    by (simp_all add: merge_inv_def store_ext_def)
  moreover have "\<forall>r \<in> set (map snd tbl'). r < length s' \<and> parent (s' ! r) = None"
    using vals unfolding values_ok_def by auto
  moreover have "group_root_set n s0 R = Some (Inr (map snd tbl', s'))"
    using b(1) m(1) by (simp add: group_root_set_def)
  ultimately show ?thesis by blast
qed

section \<open>The result of thread\<close>

text \<open>
  Step one allocates at most one container for a message and one for each of its
  references. With fuel above twice that number \<open>thread\<close> returns, the store it
  returns is well formed and the returned containers have no parent. More fuel never
  changes a result.
\<close>

definition container_bound :: "Message list \<Rightarrow> nat" where
  "container_bound msgs = sum_list (map (\<lambda>m. Suc (length (references m))) msgs)"

lemma remove_child_length: "remove_child s self child = Inr s' \<Longrightarrow> length s' = length s"
  by (auto simp: remove_child_def Let_def split: if_splits)

lemma add_child_length: "add_child s self child = Inr s' \<Longrightarrow> length s' = length s"
  by (auto simp: add_child_def Let_def split: option.splits sum.splits dest: remove_child_length)

lemma attach_message_length:
  "attach_message tbl s msg = (this, tbl', s') \<Longrightarrow> length s' \<le> Suc (length s)"
  by (auto simp: attach_message_def alloc_def split: option.splits)

lemma lookup_or_create_length:
  "lookup_or_create tbl s ref = (container, tbl', s') \<Longrightarrow> length s' \<le> Suc (length s)"
  by (auto simp: lookup_or_create_def alloc_def split: option.splits)

lemma link_reference_length:
  "link_reference s this prev container = Inr s' \<Longrightarrow> length s' = length s"
  by (auto simp: link_reference_def split: option.splits if_splits dest: add_child_length)

lemma set_parent_length: "set_parent s this prev = Inr s' \<Longrightarrow> length s' = length s"
  by (auto simp: set_parent_def split: option.splits dest: add_child_length remove_child_length)

lemma link_references_length:
  "link_references tbl s this prev refs = Inr (tbl', s', prev') \<Longrightarrow>
     length s' \<le> length s + length refs"
proof (induction refs arbitrary: tbl s prev)
  case Nil
  then show ?case by simp
next
  case (Cons ref refs)
  obtain container tbl1 s1 where look: "lookup_or_create tbl s ref = (container, tbl1, s1)"
    by (cases "lookup_or_create tbl s ref") auto
  with Cons.prems obtain s2 where link: "link_reference s1 this prev container = Inr s2"
    and rest: "link_references tbl1 s2 this (Some container) refs = Inr (tbl', s', prev')"
    by (auto split: sum.splits)
  from lookup_or_create_length[OF look] link_reference_length[OF link] Cons.IH[OF rest]
  show ?case by simp
qed

lemma link_message_length:
  assumes "link_message tbl s msg = Inr (tbl', s')"
  shows "length s' \<le> length s + Suc (length (references msg))"
proof -
  obtain this tbl1 s1 where att: "attach_message tbl s msg = (this, tbl1, s1)"
    by (cases "attach_message tbl s msg") auto
  with assms obtain s2 prev where
    refs: "link_references tbl1 s1 this None (references msg) = Inr (tbl', s2, prev)"
    and sp: "set_parent s2 this prev = Inr s'"
    by (auto simp: link_message_def split: sum.splits)
  from attach_message_length[OF att] link_references_length[OF refs] set_parent_length[OF sp]
  show ?thesis by simp
qed

lemma link_messages_length:
  "link_messages tbl s msgs = Inr (tbl', s') \<Longrightarrow> length s' \<le> length s + container_bound msgs"
proof (induction msgs arbitrary: tbl s)
  case Nil
  then show ?case by (simp add: container_bound_def)
next
  case (Cons m msgs)
  then obtain tbl1 s1 where one: "link_message tbl s m = Inr (tbl1, s1)"
    and rest: "link_messages tbl1 s1 msgs = Inr (tbl', s')"
    by (auto split: sum.splits)
  from link_message_length[OF one] Cons.IH[OF rest] show ?case
    by (simp add: container_bound_def)
qed

lemma wf_store_empty: "wf_store []"
  by (simp add: wf_store_def)

lemma thread_ok:
  assumes sub: "group_by_subject \<longrightarrow> (\<forall>m \<in> set msgs. subject m \<noteq> None)"
    and fuel: "2 * container_bound msgs < n"
  shows "\<exists>roots s. thread n msgs group_by_subject = Some (Inr (roots, s)) \<and> wf_store s \<and>
     (\<forall>r \<in> set roots. r < length s \<and> parent (s ! r) = None)"
proof -
  let ?P = "\<lambda>m. group_by_subject \<longrightarrow> subject m \<noteq> None"
  have "table_ok [] []" "messages_ok ?P []"
    by (simp_all add: table_ok_def messages_ok_def wf_store_empty)
  from link_messages_ok[OF this, of msgs] sub
  obtain tbl s0 where link: "link_messages [] [] msgs = Inr (tbl, s0)"
    and tok: "table_ok tbl s0" and mok: "messages_ok ?P s0" by auto
  from link_messages_length[OF link] have len0: "length s0 \<le> container_bound msgs" by simp
  from tok have wf0: "wf_store s0" and tv: "\<forall>c \<in> set (map snd tbl). c < length s0"
    and dv: "distinct (map snd tbl)" by (simp_all add: table_ok_def)
  let ?R = "find_root_set tbl s0"
  have dR: "distinct ?R" using dv by (simp add: find_root_set_def)
  have Rv: "\<forall>r \<in> set ?R. r < length s0 \<and> parent (s0 ! r) = None"
    using tv by (auto simp: find_root_set_def)
  have n0: "length s0 \<le> n" using len0 fuel by simp
  from prune_root_set_ok[OF wf0 dR Rv n0]
  obtain rs s1 where prune: "prune_root_set n s0 ?R = Some (Inr (rs, s1))"
    and wf1: "wf_store s1" and len1: "length s1 = length s0"
    and msg1: "\<forall>x. message (s1 ! x) = message (s0 ! x)" and drs: "distinct rs"
    and res: "\<forall>r' \<in> set rs. r' < length s0 \<and> parent (s1 ! r') = None \<and> good_root s1 r'"
    by blast
  show ?thesis
  proof (cases group_by_subject)
    case False
    with link prune have "thread n msgs group_by_subject = Some (Inr (rs, s1))"
      by (simp add: thread_def)
    with wf1 res len1 show ?thesis by auto
  next
    case True
    from messages_ok_fields[OF mok len1 msg1] True have "subjects_ok s1"
      by (simp add: messages_ok_def subjects_ok_def)
    with wf1 drs res len1 have ro: "roots_ok s1 rs" by (simp add: roots_ok_def)
    have "2 * length s1 < n" using len1 len0 fuel by simp
    from group_root_set_ok[OF ro this]
    obtain roots s' where g: "group_root_set n s1 rs = Some (Inr (roots, s'))" "wf_store s'"
      "\<forall>r \<in> set roots. r < length s' \<and> parent (s' ! r) = None" by blast
    from link prune True g(1) have "thread n msgs group_by_subject = Some (Inr (roots, s'))"
      by (simp add: thread_def)
    with g(2,3) show ?thesis by blast
  qed
qed

lemma prune_root_set_mono:
  "prune_root_set n s rs = Some r \<Longrightarrow> n \<le> m \<Longrightarrow> prune_root_set m s rs = Some r"
proof (induction rs arbitrary: s r)
  case Nil
  then show ?case by simp
next
  case (Cons c rest)
  from Cons.prems(1) obtain r1 where r1: "prune_container n s c = Some r1"
    by (auto split: option.splits)
  with prune_fuel_mono(1)[of n s c] Cons.prems(2) have m1: "prune_container m s c = Some r1"
    by blast
  show ?case
  proof (cases r1)
    case (Inl e)
    with r1 m1 Cons.prems(1) show ?thesis by auto
  next
    case (Inr p)
    obtain nc s1 where p: "p = (nc, s1)" by (cases p)
    with Inr r1 Cons.prems(1) obtain r2 where r2: "prune_root_set n s1 rest = Some r2"
      by (auto split: option.splits)
    from Cons.IH[OF r2 Cons.prems(2)] have m2: "prune_root_set m s1 rest = Some r2" .
    from Cons.prems(1) r1 m1 Inr p r2 m2 show ?thesis by auto
  qed
qed

lemma splice_children_mono:
  "splice_children n s ctr c i = Some r \<Longrightarrow> n \<le> m \<Longrightarrow> splice_children m s ctr c i = Some r"
proof (induction n s ctr c i arbitrary: m rule: splice_children.induct)
  case (1 s ctr container i)
  then show ?case by simp
next
  case (2 n s ctr container i)
  from "2.prems"(2) obtain m' where m: "m = Suc m'" and le: "n \<le> m'"
    by (cases m) auto
  show ?case
  proof (cases "i < length (children (s ! ctr))")
    case False
    with "2.prems"(1) m show ?thesis by auto
  next
    case True
    show ?thesis
    proof (cases "add_child s container (children (s ! ctr) ! i)")
      case (Inl e)
      with True "2.prems"(1) m show ?thesis by auto
    next
      case (Inr s1)
      with True "2.prems"(1) have "splice_children n s1 ctr container (Suc i) = Some r" by simp
      from "2.IH"[OF True Inr this le] True Inr m show ?thesis by auto
    qed
  qed
qed

lemma merge_pair_mono:
  assumes "merge_pair n s tbl subj ctr c = Some r" "n \<le> m"
  shows "merge_pair m s tbl subj ctr c = Some r"
proof (cases "is_dummy s ctr \<and> is_dummy s c")
  case True
  with assms(1) obtain r1 where r1: "splice_children n s ctr c 0 = Some r1"
    by (auto simp: merge_pair_def split: option.splits)
  from splice_children_mono[OF r1 assms(2)] have "splice_children m s ctr c 0 = Some r1" .
  with r1 assms(1) True show ?thesis by (auto simp: merge_pair_def)
next
  case False
  then have "merge_pair m s tbl subj ctr c = merge_pair n s tbl subj ctr c"
    by (simp add: merge_pair_def)
  with assms(1) show ?thesis by auto
qed

lemma merge_root_set_mono:
  "merge_root_set n s tbl rs = Some r \<Longrightarrow> n \<le> m \<Longrightarrow> merge_root_set m s tbl rs = Some r"
proof (induction rs arbitrary: s tbl)
  case Nil
  then show ?case by simp
next
  case (Cons c rest)
  show ?case
  proof (cases "root_subject s c")
    case (Inl e)
    with Cons.prems(1) show ?thesis by auto
  next
    case (Inr subj)
    show ?thesis
    proof (cases "map_of tbl subj")
      case None
      with Inr Cons.prems(1) have "merge_root_set n s tbl rest = Some r" by simp
      from Cons.IH[OF this Cons.prems(2)] Inr None show ?thesis by auto
    next
      case (Some ctr)
      show ?thesis
      proof (cases "ctr = c")
        case True
        with Inr Some Cons.prems(1) have "merge_root_set n s tbl rest = Some r" by simp
        from Cons.IH[OF this Cons.prems(2)] Inr Some True show ?thesis by auto
      next
        case False
        with Inr Some Cons.prems(1) obtain r1 where
          r1: "merge_pair n s tbl subj ctr c = Some r1"
          by (auto split: option.splits)
        from merge_pair_mono[OF r1 Cons.prems(2)]
        have m1: "merge_pair m s tbl subj ctr c = Some r1" .
        show ?thesis
        proof (cases r1)
          case (Inl e)
          with Inr Some False r1 m1 Cons.prems(1) show ?thesis by auto
        next
          case r: (Inr p)
          obtain tbl1 s1 where p: "p = (tbl1, s1)" by (cases p)
          with Inr Some False r1 r Cons.prems(1)
          have "merge_root_set n s1 tbl1 rest = Some r" by simp
          from Cons.IH[OF this Cons.prems(2)] Inr Some False m1 r p show ?thesis by auto
        qed
      qed
    qed
  qed
qed

lemma group_root_set_mono:
  assumes "group_root_set n s rs = Some r" "n \<le> m"
  shows "group_root_set m s rs = Some r"
proof (cases "build_subject_table s [] rs")
  case (Inl e)
  with assms(1) show ?thesis by (auto simp: group_root_set_def)
next
  case (Inr tbl)
  with assms(1) obtain r1 where r1: "merge_root_set n s tbl rs = Some r1"
    by (auto simp: group_root_set_def split: option.splits)
  from merge_root_set_mono[OF r1 assms(2)] have "merge_root_set m s tbl rs = Some r1" .
  with r1 Inr assms(1) show ?thesis by (auto simp: group_root_set_def)
qed

lemma thread_mono:
  assumes "thread n msgs g = Some r" "n \<le> m"
  shows "thread m msgs g = Some r"
proof (cases "link_messages [] [] msgs")
  case (Inl e)
  with assms(1) show ?thesis by (auto simp: thread_def)
next
  case (Inr p)
  obtain tbl s where p: "p = (tbl, s)" by (cases p)
  with Inr assms(1) obtain r1 where r1: "prune_root_set n s (find_root_set tbl s) = Some r1"
    by (auto simp: thread_def split: option.splits)
  from prune_root_set_mono[OF r1 assms(2)]
  have m1: "prune_root_set m s (find_root_set tbl s) = Some r1" .
  show ?thesis
  proof (cases r1)
    case (Inl e)
    with Inr p r1 m1 assms(1) show ?thesis by (auto simp: thread_def)
  next
    case r: (Inr q)
    obtain rs s1 where q: "q = (rs, s1)" by (cases q)
    show ?thesis
    proof (cases g)
      case False
      with Inr p r1 m1 r q assms(1) show ?thesis by (auto simp: thread_def)
    next
      case True
      with Inr p r1 r q assms(1) have "group_root_set n s1 rs = Some r"
        by (simp add: thread_def)
      from group_root_set_mono[OF this assms(2)] Inr p m1 r q True show ?thesis
        by (auto simp: thread_def)
    qed
  qed
qed

section \<open>A message and its reply\<close>

text \<open>
  Message A and message B, a reply to A: B's container is the child of A's, and A's
  container is the only root, with or without grouping.
\<close>

definition reply_store :: store where
  "reply_store =
     [\<lparr>message = Some (mk_message ''A'' [] ''x''), parent = None, children = [1]\<rparr>,
      \<lparr>message = Some (mk_message ''B'' [''A''] ''Re: x''), parent = Some 0, children = []\<rparr>]"

lemma link_reply:
  "link_messages [] [] [mk_message ''A'' [] ''x'', mk_message ''B'' [''A''] ''Re: x''] =
     Inr ([(Some ''A'', 0), (Some ''B'', 1)], reply_store)"
  by code_simp

lemma roots_reply: "find_root_set [(Some ''A'', 0), (Some ''B'', 1)] reply_store = [0]"
  by code_simp

lemma prune_reply: "prune_root_set 7 reply_store [0] = Some (Inr ([0], reply_store))"
  by code_simp

lemma group_reply: "group_root_set 7 reply_store [0] = Some (Inr ([0], reply_store))"
  by code_simp

lemma thread_reply:
  "thread 7 [mk_message ''A'' [] ''x'', mk_message ''B'' [''A''] ''Re: x''] True =
     Some (Inr ([0], reply_store))"
  by (simp only: thread_def link_reply roots_reply prune_reply group_reply
      sum.case prod.case option.case simp_thms if_False if_True)

lemma descendant_reply: "has_descendant reply_store 0 1"
  by code_simp


lemma reply_subjects:
  "True \<longrightarrow> (\<forall>m \<in> set [mk_message ''A'' [] ''x'', mk_message ''B'' [''A''] ''Re: x''].
      subject m \<noteq> None)"
  by (simp add: mk_message_def)

lemma reply_bound:
  "2 * container_bound [mk_message ''A'' [] ''x'', mk_message ''B'' [''A''] ''Re: x''] < 7"
  by (simp add: container_bound_def mk_message_def)

section \<open>Totality of thread\<close>

text \<open>
  C2. \<open>thread\<close> is total on well-formed messages. The subjects are read only when
  \<open>group_by_subject\<close> is set, and they must be strings then. Linking, pruning and
  grouping raise no error, and with fuel above twice the number of containers that step
  one can allocate (one for each message and one for each reference) \<open>thread\<close>
  returns a list of roots. On the empty input it returns the empty list and the empty
  store. The recursion limit of the Python interpreter is not part of the model.
\<close>

theorem thread_total:
  assumes "group_by_subject \<longrightarrow> (\<forall>m \<in> set msgs. subject m \<noteq> None)"
    and "2 * container_bound msgs < n"
  shows "(\<exists>roots s. thread n msgs group_by_subject = Some (Inr (roots, s))) \<and>
         thread n [] group_by_subject = Some (Inr ([], []))"
proof -
  from thread_ok[OF assms]
  have "\<exists>roots s. thread n msgs group_by_subject = Some (Inr (roots, s))" by blast
  moreover have "thread n [] group_by_subject = Some (Inr ([], []))"
    by (simp add: thread_def find_root_set_def group_root_set_def)
  ultimately show ?thesis by simp
qed

theorem thread_total_witness:
  "subject (mk_message ''A'' [] ''x'') \<noteq> None \<and>
   subject (mk_message ''B'' [''A''] ''Re: x'') \<noteq> None \<and>
   2 * container_bound [mk_message ''A'' [] ''x'', mk_message ''B'' [''A''] ''Re: x''] < 7 \<and>
   (\<exists>roots s. thread 7 [mk_message ''A'' [] ''x'', mk_message ''B'' [''A''] ''Re: x''] True =
        Some (Inr (roots, s))) \<and>
   thread 7 [] True = Some (Inr ([], []))"
proof -
  from thread_total[OF reply_subjects reply_bound]
  have "(\<exists>roots s. thread 7 [mk_message ''A'' [] ''x'', mk_message ''B'' [''A''] ''Re: x''] True =
        Some (Inr (roots, s))) \<and>
   thread 7 [] True = Some (Inr ([], []))" .
  moreover have "subject (mk_message ''A'' [] ''x'') \<noteq> None"
    "subject (mk_message ''B'' [''A''] ''Re: x'') \<noteq> None"
    by (simp_all add: mk_message_def)
  ultimately show ?thesis using reply_bound by blast
qed

section \<open>Acyclicity of the returned forest\<close>

text \<open>
  C1. Every container of the forest that \<open>thread\<close> returns is acyclic. For
  well-formed messages, if \<open>thread\<close> returns the roots \<open>roots\<close> in the store
  \<open>s\<close>, then for every container \<open>c\<close> reachable from a returned root through the
  children lists: \<open>has_descendant(c, c)\<close> holds, which is the reflexive case;
  \<open>c\<close> is not a proper descendant of itself; no other container that
  \<open>has_descendant\<close> finds below \<open>c\<close> has \<open>c\<close> below it; and no proper
  descendant of \<open>c\<close> reaches \<open>c\<close> through the children lists.
\<close>

theorem thread_acyclic:
  assumes "group_by_subject \<longrightarrow> (\<forall>m \<in> set msgs. subject m \<noteq> None)"
    and "thread n msgs group_by_subject = Some (Inr (roots, s))"
    and "r \<in> set roots" and "(r, c) \<in> (child_rel s)\<^sup>*"
  shows "has_descendant s c c \<and> (c, c) \<notin> (child_rel s)\<^sup>+ \<and>
     (\<forall>d. d \<noteq> c \<and> has_descendant s c d \<longrightarrow> \<not> has_descendant s d c) \<and>
     (\<forall>d. (c, d) \<in> (child_rel s)\<^sup>+ \<longrightarrow> (d, c) \<notin> (child_rel s)\<^sup>*)"
proof -
  let ?N = "max n (Suc (2 * container_bound msgs))"
  have run: "thread ?N msgs group_by_subject = Some (Inr (roots, s))"
    by (rule thread_mono[OF assms(2)]) simp
  have "2 * container_bound msgs < ?N" by simp
  from thread_ok[OF assms(1) this] run assms(3)
  have wf: "wf_store s" and rp: "parent (s ! r) = None" by auto
  from under_root_acyclic[OF wf rp assms(4)] have ac: "(c, c) \<notin> (child_rel s)\<^sup>+" .
  have "(d, c) \<notin> (child_rel s)\<^sup>*" if "(c, d) \<in> (child_rel s)\<^sup>+" for d
  proof
    assume "(d, c) \<in> (child_rel s)\<^sup>*"
    with that have "(c, c) \<in> (child_rel s)\<^sup>+" by simp
    with ac show False by simp
  qed
  with ac acyclic_has_descendant[OF ac] has_descendant_refl[of s c] show ?thesis by blast
qed

theorem thread_acyclic_witness:
  "subject (mk_message ''A'' [] ''x'') \<noteq> None \<and>
   subject (mk_message ''B'' [''A''] ''Re: x'') \<noteq> None \<and>
   thread 7 [mk_message ''A'' [] ''x'', mk_message ''B'' [''A''] ''Re: x''] True =
     Some (Inr ([0], reply_store)) \<and>
   has_descendant reply_store 0 0 \<and> (0, 0) \<notin> (child_rel reply_store)\<^sup>+ \<and>
   has_descendant reply_store 0 1 \<and> \<not> has_descendant reply_store 1 0 \<and>
   (0, 1) \<in> (child_rel reply_store)\<^sup>+ \<and> (1, 0) \<notin> (child_rel reply_store)\<^sup>*"
proof -
  have r: "(0::nat) \<in> set [0]" by simp
  have c: "(0, 0) \<in> (child_rel reply_store)\<^sup>*" by simp
  from thread_acyclic[OF reply_subjects thread_reply r c]
  have a: "has_descendant reply_store 0 0" "(0, 0) \<notin> (child_rel reply_store)\<^sup>+"
    and b: "\<forall>d. d \<noteq> 0 \<and> has_descendant reply_store 0 d \<longrightarrow> \<not> has_descendant reply_store d 0"
    and d: "\<forall>d. (0, d) \<in> (child_rel reply_store)\<^sup>+ \<longrightarrow> (d, 0) \<notin> (child_rel reply_store)\<^sup>*"
    by blast+
  have edge: "(0, 1) \<in> (child_rel reply_store)\<^sup>+"
    by (rule r_into_trancl) (simp add: child_rel_def reply_store_def)
  from b descendant_reply have nb: "\<not> has_descendant reply_store 1 0" by auto
  from d edge have "(1, 0) \<notin> (child_rel reply_store)\<^sup>*" by blast
  moreover have "subject (mk_message ''A'' [] ''x'') \<noteq> None"
    "subject (mk_message ''B'' [''A''] ''Re: x'') \<noteq> None"
    by (simp_all add: mk_message_def)
  ultimately show ?thesis using a nb edge descendant_reply thread_reply by blast
qed

section \<open>Roots with an empty normalised subject are not returned\<close>

text \<open>
  The containers of the subject table are roots with a non-empty normalised subject or
  containers that the merge loop allocated, and the list that grouping returns holds the
  containers of the table.
\<close>

lemma build_subject_table_values:
  "build_subject_table s tbl rs = Inr tbl' \<Longrightarrow> (k, v) \<in> set tbl' \<Longrightarrow>
     (k, v) \<in> set tbl \<or> (v \<in> set rs \<and> root_subject s v = Inr k \<and> k \<noteq> [])"
proof (induction rs arbitrary: tbl)
  case Nil
  then show ?case by simp
next
  case (Cons c rest)
  from Cons.prems(1) obtain subj where key: "root_subject s c = Inr subj"
    by (auto split: sum.splits)
  have put: ?case if "build_subject_table s (AList.update subj c tbl) rest = Inr tbl'" "subj \<noteq> []"
  proof -
    from Cons.IH[OF that(1) Cons.prems(2)]
    show ?thesis
    proof
      assume "(k, v) \<in> set (AList.update subj c tbl)"
      from update_set_sub[OF this] key that(2) show ?thesis by auto
    next
      assume "v \<in> set rest \<and> root_subject s v = Inr k \<and> k \<noteq> []"
      then show ?thesis by simp
    qed
  qed
  have keep: ?case if "build_subject_table s tbl rest = Inr tbl'"
    using Cons.IH[OF that Cons.prems(2)] by auto
  from Cons.prems(1) key put keep show ?case
    by (auto split: if_splits option.splits sum.splits bool.splits)
qed

lemma splice_children_length:
  "splice_children n s ctr c i = Some (Inr s') \<Longrightarrow> length s' = length s"
proof (induction n s ctr c i rule: splice_children.induct)
  case (1 s ctr container i)
  then show ?case by simp
next
  case (2 n s ctr container i)
  show ?case
  proof (cases "i < length (children (s ! ctr))")
    case False
    with "2.prems" show ?thesis by simp
  next
    case True
    with "2.prems" obtain s1 where s1: "add_child s container (children (s ! ctr) ! i) = Inr s1"
      and rest: "splice_children n s1 ctr container (Suc i) = Some (Inr s')"
      by (auto split: sum.splits)
    from "2.IH"[OF True s1 rest] add_child_length[OF s1] show ?thesis by simp
  qed
qed

lemma merge_pair_values:
  assumes "merge_pair n s tbl subj ctr c = Some (Inr (tbl', s'))"
  shows "length s \<le> length s' \<and>
     (\<forall>k v. (k, v) \<in> set tbl' \<longrightarrow> (k, v) \<in> set tbl \<or> length s \<le> v)"
proof -
  consider (same) "tbl' = tbl" "length s' = length s"
    | (join) s2 where "tbl' = AList.update subj (length s) tbl"
        "add_child (s @ [Container_init]) (length s) ctr = Inr s2"
        "add_child s2 (length s) c = Inr s'"
    using assms
    by (auto simp: merge_pair_def alloc_def
        split: if_splits option.splits sum.splits
        dest: add_child_length splice_children_length)
  then show ?thesis
  proof cases
    case same
    then show ?thesis by simp
  next
    case join
    from add_child_length[OF join(2)] add_child_length[OF join(3)]
    have "length s' = Suc (length s)" by simp
    moreover have "(k, v) \<in> set tbl \<or> length s \<le> v" if "(k, v) \<in> set tbl'" for k v
      using update_set_sub[OF that[unfolded join(1)]] by auto
    ultimately show ?thesis by auto
  qed
qed

lemma merge_root_set_values:
  "merge_root_set n s tbl rs = Some (Inr (tbl', s')) \<Longrightarrow>
     length s \<le> length s' \<and>
     (\<forall>k v. (k, v) \<in> set tbl' \<longrightarrow> (k, v) \<in> set tbl \<or> length s \<le> v)"
proof (induction rs arbitrary: s tbl)
  case Nil
  then show ?case by simp
next
  case (Cons c rest)
  from Cons.prems obtain subj where key: "root_subject s c = Inr subj"
    by (auto split: sum.splits)
  show ?case
  proof (cases "map_of tbl subj")
    case None
    with key Cons.prems have "merge_root_set n s tbl rest = Some (Inr (tbl', s'))" by simp
    from Cons.IH[OF this] show ?thesis .
  next
    case (Some ctr)
    show ?thesis
    proof (cases "ctr = c")
      case True
      with key Some Cons.prems have "merge_root_set n s tbl rest = Some (Inr (tbl', s'))"
        by simp
      from Cons.IH[OF this] show ?thesis .
    next
      case False
      with key Some Cons.prems obtain tbl1 s1 where
        one: "merge_pair n s tbl subj ctr c = Some (Inr (tbl1, s1))"
        and rest: "merge_root_set n s1 tbl1 rest = Some (Inr (tbl', s'))"
        by (auto split: option.splits sum.splits)
      from merge_pair_values[OF one] Cons.IH[OF rest] show ?thesis
        by (meson le_trans)
    qed
  qed
qed

lemma group_root_set_values:
  assumes "build_subject_table s [] rs = Inr tbl"
    "group_root_set n s rs = Some (Inr (res, s'))" "v \<in> set res"
  shows "(\<exists>k. (k, v) \<in> set tbl) \<or> length s \<le> v"
proof -
  from assms(1,2) obtain tbl' where m: "merge_root_set n s tbl rs = Some (Inr (tbl', s'))"
    and res: "res = map snd tbl'"
    by (auto simp: group_root_set_def split: option.splits sum.splits)
  from assms(3) res obtain k where "(k, v) \<in> set tbl'" by auto
  with merge_root_set_values[OF m] show ?thesis by blast
qed
lemma group_empty_subject:
  "group_root_set n empty_subject_store [0, 1] = Some (Inr ([1], empty_subject_store))"
  by (simp only: group_root_set_def table_empty_subject merge_empty_subject
      sum.case prod.case option.case list.map snd_conv)

text \<open>
  C5, amended. A container whose normalised subject is empty is excluded from grouping:
  the subject table has no empty key and the container is not one of its values. It is
  not in the list that \<open>thread\<close> returns with \<open>group_by_subject\<close> either, since
  that list holds the values of the subject table.
\<close>

theorem empty_subject_root_skipped:
  assumes "build_subject_table s [] root_set = Inr subject_table"
    and "group_root_set n s root_set = Some (Inr (result, s'))"
    and "c < length s" and "root_subject s c = Inr []"
  shows "[] \<notin> fst ` set subject_table \<and> c \<notin> snd ` set subject_table \<and> c \<notin> set result"
proof -
  have tab: "root_subject s v = Inr k \<and> k \<noteq> []" if "(k, v) \<in> set subject_table" for k v
    using build_subject_table_values[OF assms(1) that] by simp
  have a: "[] \<notin> fst ` set subject_table"
    using tab by force
  have b: "c \<notin> snd ` set subject_table"
  proof
    assume "c \<in> snd ` set subject_table"
    then obtain k where "(k, c) \<in> set subject_table" by force
    from tab[OF this] assms(4) show False by auto
  qed
  have "c \<notin> set result"
  proof
    assume "c \<in> set result"
    from group_root_set_values[OF assms(1,2) this] assms(3)
    obtain k where "(k, c) \<in> set subject_table" by auto
    then have "snd (k, c) \<in> snd ` set subject_table" by (rule imageI)
    with b show False by simp
  qed
  with a b show ?thesis by simp
qed

theorem empty_subject_root_skipped_witness:
  "build_subject_table empty_subject_store [] [0, 1] = Inr [(''y'', 1)] \<and>
   group_root_set 1 empty_subject_store [0, 1] = Some (Inr ([1], empty_subject_store)) \<and>
   0 < length empty_subject_store \<and> root_subject empty_subject_store 0 = Inr [] \<and>
   [] \<notin> fst ` set [(''y'', 1::nat)] \<and> 0 \<notin> snd ` set [(''y'', 1::nat)] \<and> 0 \<notin> set [1::nat]"
proof -
  have len: "0 < length empty_subject_store" by (simp add: empty_subject_store_def)
  from empty_subject_root_skipped[OF table_empty_subject group_empty_subject len
      subjects_empty_subject(1)]
  have "[] \<notin> fst ` set [(''y'', 1::nat)] \<and> 0 \<notin> snd ` set [(''y'', 1::nat)] \<and> 0 \<notin> set [1::nat]" .
  with table_empty_subject group_empty_subject len subjects_empty_subject(1)
  show ?thesis by (simp only: simp_thms)
qed

end
